theory Spec2Isabelle
  imports Complex_Main "HOL-Library.Multiset"
begin

section \<open>Data model of SpringEmbedderFRExact\<close>

text \<open>
  The embedding follows \<^verbatim>\<open>src/ogdf/energybased/SpringEmbedderFRExact.cpp\<close>.
  A C++ \<^verbatim>\<open>double\<close> is modelled by a \<^typ>\<open>real\<close> (exact arithmetic: rounding, NaN and
  infinities are outside the model), an \<^verbatim>\<open>int\<close> by an unbounded \<^typ>\<open>int\<close> (the
  counters of the loops stay below the iteration budget plus two) or, for array indices
  and sizes, a \<^typ>\<open>nat\<close>. A read or write outside a buffer is undefined behaviour in the
  source; the statements below are about components whose indices are in range, which
  is what \<open>initCC\<close> builds. A raw buffer of \<open>n\<close> elements is a list of
  length \<open>n\<close>. A \<^verbatim>\<open>node\<close> handle is identified with the value of its \<^verbatim>\<open>index()\<close>.
\<close>

type_synonym node = nat

text \<open>
  The part of \<^verbatim>\<open>Graph\<close> the layout reads: the node list, the edge list (source and
  target of every edge) and, for every node, the twin node of each of its adjacency
  entries, in the order of \<^verbatim>\<open>v->adjEntries\<close>.
\<close>

record Graph =
  nodes :: "node list"
  edges :: "(node \<times> node) list"
  adjEntries :: "node \<Rightarrow> node list"

text \<open>
  The part of \<^verbatim>\<open>GraphAttributes\<close> the layout reads and writes. An edge is identified
  with its position in the edge list; its bend points are a list of points.
\<close>

record GraphAttributes =
  constGraph :: Graph
  ga_x :: "node \<Rightarrow> real"
  ga_y :: "node \<Rightarrow> real"
  ga_width :: "node \<Rightarrow> real"
  ga_height :: "node \<Rightarrow> real"
  ga_weight :: "node \<Rightarrow> real"
  ga_has_nodeWeight :: bool
  ga_bends :: "nat \<Rightarrow> (real \<times> real) list"

datatype CoolingFunction = Factor | Logarithmic

text \<open>The members of class \<^verbatim>\<open>SpringEmbedderFRExact\<close>.\<close>

record SpringEmbedderFRExact =
  m_iterations :: int
  m_noise :: bool
  m_coolingFunction :: CoolingFunction
  m_coolFactor_x :: real
  m_coolFactor_y :: real
  m_idealEdgeLength :: real
  m_minDistCC :: real
  m_pageRatio :: real
  m_useNodeWeight :: bool
  m_checkConvergence :: bool
  m_convTolerance :: real
  m_txNull :: real
  m_tyNull :: real

text \<open>
  The members of the nested class \<^verbatim>\<open>ArrayGraph\<close>. Its own \<^verbatim>\<open>m_useNodeWeight\<close> is
  named \<open>ag_useNodeWeight\<close> here, to keep it apart from the member of the same name above.
  The pointer \<^verbatim>\<open>m_ga\<close> is replaced by passing the attributes to \<open>initCC\<close>.
\<close>

record ArrayGraph =
  m_numNodes :: nat
  m_numEdges :: nat
  m_numCC :: nat
  m_orig :: "node list"
  m_src :: "nat list"
  m_tgt :: "nat list"
  m_x :: "real list"
  m_y :: "real list"
  m_nodeWeight :: "real list"
  ag_useNodeWeight :: bool
  m_mapNode :: "node \<Rightarrow> nat"
  m_nodesInCC :: "node list list"

section \<open>ArrayGraph: constructor and initCC\<close>

text \<open>
  The constructor. \<^verbatim>\<open>connectedComponents(G, component)\<close> is an external collaborator: its
  two results, the number of components and the component index of every node, are the
  parameters \<open>numCC\<close> and \<open>component\<close>. The loop appends every node to the list of its
  component.
\<close>

definition ArrayGraph_ctor :: "GraphAttributes \<Rightarrow> nat \<Rightarrow> (node \<Rightarrow> nat) \<Rightarrow> ArrayGraph" where
  "ArrayGraph_ctor ga numCC component =
     \<lparr> m_numNodes = 0, m_numEdges = 0, m_numCC = numCC,
       m_orig = [], m_src = [], m_tgt = [], m_x = [], m_y = [], m_nodeWeight = [],
       ag_useNodeWeight = False,
       m_mapNode = (\<lambda>v. 0),
       m_nodesInCC =
         fold (\<lambda>v cc. cc[component v := cc ! component v @ [v]])
              (nodes (constGraph ga)) (replicate numCC []) \<rparr>"

text \<open>
  First loop of \<open>initCC\<close>, one node \<open>v\<close>: the buffers are filled at index \<open>j\<close>, which is
  the number of nodes visited so far, so writing at \<open>j\<close> is appending.
\<close>

definition initCC_node :: "GraphAttributes \<Rightarrow> node \<Rightarrow> ArrayGraph \<Rightarrow> ArrayGraph" where
  "initCC_node ga v C =
     (let j = length (m_orig C) in
      C\<lparr> m_orig := m_orig C @ [v],
         m_mapNode := (m_mapNode C)(v := j),
         m_x := m_x C @ [ga_x ga v],
         m_y := m_y C @ [ga_y ga v],
         m_nodeWeight := m_nodeWeight C @
            [if ag_useNodeWeight C
             then (if ga_has_nodeWeight ga then ga_weight ga v else 1)
             else 1],
         m_numEdges :=
            fold (\<lambda>w ne. if v < w then ne + 1 else ne)
                 (adjEntries (constGraph ga) v) (m_numEdges C) \<rparr>)"

text \<open>
  Second loop of \<open>initCC\<close>, one node \<open>v\<close> with compact index \<open>srcId\<close>: an adjacency
  entry is recorded only when \<open>v->index() < w->index()\<close>.
\<close>

definition initCC_edges :: "GraphAttributes \<Rightarrow> ArrayGraph \<Rightarrow> node \<times> nat \<Rightarrow>
    nat list \<times> nat list \<Rightarrow> nat list \<times> nat list" where
  "initCC_edges ga C vs st =
     fold (\<lambda>w (src, tgt).
             if fst vs < w then (src @ [snd vs], tgt @ [m_mapNode C w]) else (src, tgt))
          (adjEntries (constGraph ga) (fst vs)) st"

definition initCC :: "GraphAttributes \<Rightarrow> ArrayGraph \<Rightarrow> nat \<Rightarrow> ArrayGraph" where
  "initCC ga C i =
     (let ns = m_nodesInCC C ! i;
          C0 = C\<lparr> m_numNodes := length ns, m_numEdges := 0,
                  m_orig := [], m_x := [], m_y := [], m_nodeWeight := [] \<rparr>;
          C1 = fold (initCC_node ga) ns C0;
          st = fold (initCC_edges ga C1) (zip ns [0..<length ns]) ([], [])
      in C1\<lparr> m_src := fst st, m_tgt := snd st \<rparr>)"

section \<open>Layout initializer\<close>

text \<open>
  Modelled from the spec: \<^verbatim>\<open>Math::updateMin\<close> and \<^verbatim>\<open>Math::updateMax\<close> are defined in
  \<^verbatim>\<open>Math.h\<close>, outside the sources at hand. They replace their first argument by the
  second when that is smaller, respectively larger; the loop with them computes the
  bounding box of the specification.
\<close>

definition updateMin :: "real \<Rightarrow> real \<Rightarrow> real" where
  "updateMin m a = (if a < m then a else m)"

definition updateMax :: "real \<Rightarrow> real \<Rightarrow> real" where
  "updateMax m a = (if m < a then a else m)"

text \<open>
  \<open>initialize\<close> reads \<^verbatim>\<open>component.m_x[0]\<close> before its loop. With no node this read is
  outside the buffer; the model returns \<open>None\<close> there. Otherwise the component and the
  solver (whose \<open>m_txNull\<close>, \<open>m_tyNull\<close> are set) are returned.
\<close>

definition initialize ::
    "SpringEmbedderFRExact \<Rightarrow> ArrayGraph \<Rightarrow> (SpringEmbedderFRExact \<times> ArrayGraph) option" where
  "initialize conf component =
     (if m_numNodes component = 0 then None
      else
        let n = m_numNodes component;
            xmin = fold (\<lambda>v m. updateMin m (m_x component ! v)) [0..<n] (m_x component ! 0);
            xmax = fold (\<lambda>v m. updateMax m (m_x component ! v)) [0..<n] (m_x component ! 0);
            ymin = fold (\<lambda>v m. updateMin m (m_y component ! v)) [0..<n] (m_y component ! 0);
            ymax = fold (\<lambda>v m. updateMax m (m_y component ! v)) [0..<n] (m_y component ! 0);
            w = xmax - xmin + m_idealEdgeLength conf;
            h = ymax - ymin + m_idealEdgeLength conf;
            ratio = h / w;
            W = sqrt (real n / ratio) * m_idealEdgeLength conf;
            H = ratio * W;
            fx = W / w;
            fy = H / h;
            component' = fold (\<lambda>v C. C\<lparr> m_x := (m_x C)[v := (m_x C ! v - xmin) * fx],
                                          m_y := (m_y C)[v := (m_y C ! v - ymin) * fy] \<rparr>)
                              [0..<n] component
        in Some (conf\<lparr> m_txNull := W / 8, m_tyNull := H / 8 \<rparr>, component'))"

section \<open>Cooling scheduler\<close>

text \<open>
  Modelled from the spec: \<^verbatim>\<open>mylog2\<close> is declared in the header
  \<^verbatim>\<open>SpringEmbedderFRExact.h\<close>, which is not part of the sources at hand. The
  specification calls it \<open>log2(cF)\<close>, with \<open>log2(cF) = 0\<close> at \<open>cF = 1\<close>: the binary
  logarithm.
\<close>

definition mylog2 :: "int \<Rightarrow> real" where
  "mylog2 c = log 2 (real_of_int c)"

text \<open>\<open>cool(tx, ty, cF)\<close> updates its three reference parameters; the model returns them.\<close>

definition cool :: "SpringEmbedderFRExact \<Rightarrow> real \<times> real \<times> int \<Rightarrow> real \<times> real \<times> int" where
  "cool conf s =
     (case s of (tx, ty, cF) \<Rightarrow>
        (case m_coolingFunction conf of
           Factor \<Rightarrow> (tx * m_coolFactor_x conf, ty * m_coolFactor_y conf, cF)
         | Logarithmic \<Rightarrow>
             (let cFLog = mylog2 cF in
              if cFLog \<noteq> 0
              then (m_txNull conf / cFLog, m_tyNull conf / cFLog, cF + 1)
              else (tx, ty, cF + 1))))"

section \<open>Force computation engine, scalar path\<close>

definition minDist :: real where
  "minDist = 10 / 1000000"

definition minDistSquare :: real where
  "minDistSquare = minDist * minDist"

definition c_rep :: "SpringEmbedderFRExact \<Rightarrow> real" where
  "c_rep conf = 52 / 1000 * (m_idealEdgeLength conf * m_idealEdgeLength conf)"

text \<open>The clamped squared distance by which the repulsive pass divides.\<close>

definition repDistSquare :: "ArrayGraph \<Rightarrow> nat \<Rightarrow> nat \<Rightarrow> real" where
  "repDistSquare C v u =
     (let delta_x = m_x C ! v - m_x C ! u;
          delta_y = m_y C ! v - m_y C ! u
      in max minDistSquare (delta_x * delta_x + delta_y * delta_y))"

text \<open>Body of the inner loop of the repulsive pass: \<open>d\<close> is \<open>(disp_x[v], disp_y[v])\<close>.\<close>

definition repulsive_inner :: "ArrayGraph \<Rightarrow> nat \<Rightarrow> nat \<Rightarrow> real \<times> real \<Rightarrow> real \<times> real" where
  "repulsive_inner C v u d =
     (if u = v then d
      else
        let delta_x = m_x C ! v - m_x C ! u;
            delta_y = m_y C ! v - m_y C ! u;
            distSquare = repDistSquare C v u;
            t = m_nodeWeight C ! u / distSquare
        in (fst d + delta_x * t, snd d + delta_y * t))"

definition repulsive_node :: "SpringEmbedderFRExact \<Rightarrow> ArrayGraph \<Rightarrow> nat \<Rightarrow> real \<times> real" where
  "repulsive_node conf C v =
     (let d = fold (repulsive_inner C v) [0..<m_numNodes C] (0, 0)
      in (fst d * c_rep conf, snd d * c_rep conf))"

text \<open>The repulsive pass: the pair of buffers \<open>(disp_x, disp_y)\<close>.\<close>

definition repulsive :: "SpringEmbedderFRExact \<Rightarrow> ArrayGraph \<Rightarrow> real list \<times> real list" where
  "repulsive conf C =
     (map (\<lambda>v. fst (repulsive_node conf C v)) [0..<m_numNodes C],
      map (\<lambda>v. snd (repulsive_node conf C v)) [0..<m_numNodes C])"

text \<open>The clamped distance of the attractive pass.\<close>

definition attrDist :: "ArrayGraph \<Rightarrow> nat \<Rightarrow> real" where
  "attrDist C e =
     (let v = m_src C ! e; u = m_tgt C ! e;
          delta_x = m_x C ! v - m_x C ! u;
          delta_y = m_y C ! v - m_y C ! u
      in max minDist (sqrt (delta_x * delta_x + delta_y * delta_y)))"

text \<open>
  Body of the loop of the attractive pass. It divides by the ideal edge length \<open>k\<close>, which
  is not clamped. With \<open>k = 0\<close> the source computes a NaN or an infinity here, whereas the
  division of the model returns 0: the definition stands for the code only for
  \<open>k \<noteq> 0\<close>, and the statements about displacements below assume it.
\<close>

definition attractive_edge :: "SpringEmbedderFRExact \<Rightarrow> ArrayGraph \<Rightarrow> nat \<Rightarrow>
    real list \<times> real list \<Rightarrow> real list \<times> real list" where
  "attractive_edge conf C e disp =
     (let k = m_idealEdgeLength conf;
          v = m_src C ! e; u = m_tgt C ! e;
          delta_x = m_x C ! v - m_x C ! u;
          delta_y = m_y C ! v - m_y C ! u;
          dist = attrDist C e;
          disp_x = (fst disp)[v := fst disp ! v - delta_x * dist / k];
          disp_y = (snd disp)[v := snd disp ! v - delta_y * dist / k];
          disp_x = disp_x[u := disp_x ! u + delta_x * dist / k];
          disp_y = disp_y[u := disp_y ! u + delta_y * dist / k]
      in (disp_x, disp_y))"

definition attractive :: "SpringEmbedderFRExact \<Rightarrow> ArrayGraph \<Rightarrow>
    real list \<times> real list \<Rightarrow> real list \<times> real list" where
  "attractive conf C disp = fold (attractive_edge conf C) [0..<m_numEdges C] disp"

text \<open>The clamped length of a displacement, by which the capping pass divides.\<close>

definition capDist :: "real \<Rightarrow> real \<Rightarrow> real" where
  "capDist dx dy = max minDist (sqrt (dx * dx + dy * dy))"

definition xdisplace :: "real \<Rightarrow> real \<Rightarrow> real \<Rightarrow> real" where
  "xdisplace dx dy tx = dx / capDist dx dy * min (capDist dx dy) tx"

definition ydisplace :: "real \<Rightarrow> real \<Rightarrow> real \<Rightarrow> real" where
  "ydisplace dx dy ty = dy / capDist dx dy * min (capDist dx dy) ty"

text \<open>
  Body of the capping loop for node \<open>v\<close>; the state is the flag \<open>converged\<close> and the
  component.
\<close>

definition capping_node :: "SpringEmbedderFRExact \<Rightarrow> real list \<times> real list \<Rightarrow> real \<Rightarrow> real \<Rightarrow>
    nat \<Rightarrow> bool \<times> ArrayGraph \<Rightarrow> bool \<times> ArrayGraph" where
  "capping_node conf disp tx ty v st =
     (let C = snd st;
          xd = xdisplace (fst disp ! v) (snd disp ! v) tx;
          yd = ydisplace (fst disp ! v) (snd disp ! v) ty;
          eucdistsq = xd * xd + yd * yd;
          threshold = m_convTolerance conf * m_idealEdgeLength conf;
          converged = (if eucdistsq > threshold * threshold then False else fst st)
      in (converged, C\<lparr> m_x := (m_x C)[v := m_x C ! v + xd],
                        m_y := (m_y C)[v := m_y C ! v + yd] \<rparr>))"

definition capping :: "SpringEmbedderFRExact \<Rightarrow> real list \<times> real list \<Rightarrow> real \<Rightarrow> real \<Rightarrow>
    bool \<times> ArrayGraph \<Rightarrow> bool \<times> ArrayGraph" where
  "capping conf disp tx ty st = fold (capping_node conf disp tx ty) [0..<m_numNodes (snd st)] st"

text \<open>
  The state of the \<^verbatim>\<open>while\<close> loop of \<open>mainStep\<close>: the component and the local variables
  \<open>tx\<close>, \<open>ty\<close>, \<open>cF\<close>, \<open>itCount\<close>, \<open>converged\<close>.
\<close>

type_synonym loopState = "ArrayGraph \<times> real \<times> real \<times> int \<times> int \<times> bool"

definition ls_C :: "loopState \<Rightarrow> ArrayGraph" where
  "ls_C s = fst s"

definition ls_tx :: "loopState \<Rightarrow> real" where
  "ls_tx s = fst (snd s)"

definition ls_ty :: "loopState \<Rightarrow> real" where
  "ls_ty s = fst (snd (snd s))"

definition ls_cF :: "loopState \<Rightarrow> int" where
  "ls_cF s = fst (snd (snd (snd s)))"

definition ls_itCount :: "loopState \<Rightarrow> int" where
  "ls_itCount s = fst (snd (snd (snd (snd s))))"

definition ls_converged :: "loopState \<Rightarrow> bool" where
  "ls_converged s = snd (snd (snd (snd (snd s))))"

text \<open>One execution of the body of the \<^verbatim>\<open>while\<close> loop.\<close>

definition mainStep_body :: "SpringEmbedderFRExact \<Rightarrow> loopState \<Rightarrow> loopState" where
  "mainStep_body conf s =
     (let converged = (if m_checkConvergence conf then True else ls_converged s);
          disp = repulsive conf (ls_C s);
          disp = attractive conf (ls_C s) disp;
          st = capping conf disp (ls_tx s) (ls_ty s) (converged, ls_C s);
          t = cool conf (ls_tx s, ls_ty s, ls_cF s);
          itCount = ls_itCount s + 1;
          converged = (itCount > m_iterations conf \<or> fst st)
      in (snd st, fst t, fst (snd t), snd (snd t), itCount, converged))"

function mainStep_while :: "SpringEmbedderFRExact \<Rightarrow> loopState \<Rightarrow> loopState" where
  "mainStep_while conf s =
     (if \<not> ls_converged s then mainStep_while conf (mainStep_body conf s) else s)"
  by pat_completeness auto
termination
  by (relation "measure (\<lambda>(conf, s).
        if ls_converged s then 0 else Suc (nat (m_iterations conf + 1 - ls_itCount s)))")
     (auto simp: mainStep_body_def Let_def ls_converged_def ls_itCount_def)

declare mainStep_while.simps [simp del]

definition mainStep_init :: "SpringEmbedderFRExact \<Rightarrow> ArrayGraph \<Rightarrow> loopState" where
  "mainStep_init conf C = (C, m_txNull conf, m_tyNull conf, 1, 1, m_iterations conf = 0)"

definition mainStep :: "SpringEmbedderFRExact \<Rightarrow> ArrayGraph \<Rightarrow> ArrayGraph" where
  "mainStep conf C = ls_C (mainStep_while conf (mainStep_init conf C))"

section \<open>Force computation engine, vectorized path\<close>

text \<open>
  Two facts about the build and the machine decide which code runs; they are parameters:
  \<open>haveSSE3\<close> is the result of \<^verbatim>\<open>System::cpuSupports(CPUFeature::SSE3)\<close>,
  \<open>sse3_extensions\<close> and \<open>use_ksquare\<close> say whether the macros
  \<^verbatim>\<open>OGDF_SSE3_EXTENSIONS\<close> and \<^verbatim>\<open>OGDF_SPRINGEMBEDDERFREXACT_USE_KSQUARE\<close> are defined.
\<close>

record Build =
  haveSSE3 :: bool
  sse3_extensions :: bool
  use_ksquare :: bool

text \<open>
  A \<^verbatim>\<open>__m128d\<close> holds two doubles: the pair (element 0, element 1). The \<^verbatim>\<open>_pd\<close>
  intrinsics work on both elements, the \<^verbatim>\<open>_sd\<close> intrinsics on element 0 and copy
  element 1 from their first operand.
\<close>

type_synonym m128d = "real \<times> real"

definition mm_setzero_pd :: m128d where
  "mm_setzero_pd = (0, 0)"

definition mm_set1_pd :: "real \<Rightarrow> m128d" where
  "mm_set1_pd a = (a, a)"

definition mm_load_pd :: "real list \<Rightarrow> nat \<Rightarrow> m128d" where
  "mm_load_pd p u = (p ! u, p ! (u + 1))"

definition mm_load_sd :: "real list \<Rightarrow> nat \<Rightarrow> m128d" where
  "mm_load_sd p u = (p ! u, 0)"

definition mm_store_pd :: "real list \<Rightarrow> nat \<Rightarrow> m128d \<Rightarrow> real list" where
  "mm_store_pd p u a = p[u := fst a, u + 1 := snd a]"

definition mm_add_pd :: "m128d \<Rightarrow> m128d \<Rightarrow> m128d" where
  "mm_add_pd a b = (fst a + fst b, snd a + snd b)"

definition mm_sub_pd :: "m128d \<Rightarrow> m128d \<Rightarrow> m128d" where
  "mm_sub_pd a b = (fst a - fst b, snd a - snd b)"

definition mm_mul_pd :: "m128d \<Rightarrow> m128d \<Rightarrow> m128d" where
  "mm_mul_pd a b = (fst a * fst b, snd a * snd b)"

definition mm_div_pd :: "m128d \<Rightarrow> m128d \<Rightarrow> m128d" where
  "mm_div_pd a b = (fst a / fst b, snd a / snd b)"

definition mm_max_pd :: "m128d \<Rightarrow> m128d \<Rightarrow> m128d" where
  "mm_max_pd a b = (max (fst a) (fst b), max (snd a) (snd b))"

definition mm_min_pd :: "m128d \<Rightarrow> m128d \<Rightarrow> m128d" where
  "mm_min_pd a b = (min (fst a) (fst b), min (snd a) (snd b))"

definition mm_sqrt_pd :: "m128d \<Rightarrow> m128d" where
  "mm_sqrt_pd a = (sqrt (fst a), sqrt (snd a))"

definition mm_hadd_pd :: "m128d \<Rightarrow> m128d \<Rightarrow> m128d" where
  "mm_hadd_pd a b = (fst a + snd a, fst b + snd b)"

definition mm_add_sd :: "m128d \<Rightarrow> m128d \<Rightarrow> m128d" where
  "mm_add_sd a b = (fst a + fst b, snd a)"

definition mm_sub_sd :: "m128d \<Rightarrow> m128d \<Rightarrow> m128d" where
  "mm_sub_sd a b = (fst a - fst b, snd a)"

definition mm_mul_sd :: "m128d \<Rightarrow> m128d \<Rightarrow> m128d" where
  "mm_mul_sd a b = (fst a * fst b, snd a)"

definition mm_div_sd :: "m128d \<Rightarrow> m128d \<Rightarrow> m128d" where
  "mm_div_sd a b = (fst a / fst b, snd a)"

definition mm_max_sd :: "m128d \<Rightarrow> m128d \<Rightarrow> m128d" where
  "mm_max_sd a b = (max (fst a) (fst b), snd a)"

text \<open>
  The two lambdas of the repulsive pass. The state \<open>acc\<close> is the pair
  \<open>(mm_disp_xv, mm_disp_yv)\<close> they capture by reference.
\<close>

definition compute_pd :: "Build \<Rightarrow> SpringEmbedderFRExact \<Rightarrow> ArrayGraph \<Rightarrow> nat \<Rightarrow> nat \<Rightarrow>
    m128d \<times> m128d \<Rightarrow> m128d \<times> m128d" where
  "compute_pd b conf C v u acc =
     (let mm_xv = mm_set1_pd (m_x C ! v);
          mm_yv = mm_set1_pd (m_y C ! v);
          mm_delta_x = mm_sub_pd mm_xv (mm_load_pd (m_x C) u);
          mm_delta_y = mm_sub_pd mm_yv (mm_load_pd (m_y C) u);
          mm_xSquare = mm_mul_pd mm_delta_x mm_delta_x;
          mm_ySquare = mm_mul_pd mm_delta_y mm_delta_y;
          mm_distSquare = mm_max_pd (mm_set1_pd minDistSquare) (mm_add_pd mm_xSquare mm_ySquare);
          mm_t = (if \<not> use_ksquare b
                  then mm_div_pd (mm_load_pd (m_nodeWeight C) u) mm_distSquare
                  else mm_div_pd (mm_set1_pd (m_idealEdgeLength conf * m_idealEdgeLength conf))
                                 mm_distSquare)
      in (mm_add_pd (fst acc) (mm_mul_pd mm_delta_x mm_t),
          mm_add_pd (snd acc) (mm_mul_pd mm_delta_y mm_t)))"

definition compute_sd :: "Build \<Rightarrow> SpringEmbedderFRExact \<Rightarrow> ArrayGraph \<Rightarrow> nat \<Rightarrow> nat \<Rightarrow>
    m128d \<times> m128d \<Rightarrow> m128d \<times> m128d" where
  "compute_sd b conf C v u acc =
     (let mm_xv = mm_set1_pd (m_x C ! v);
          mm_yv = mm_set1_pd (m_y C ! v);
          mm_delta_x = mm_sub_sd mm_xv (mm_load_sd (m_x C) u);
          mm_delta_y = mm_sub_sd mm_yv (mm_load_sd (m_y C) u);
          mm_xSquare = mm_mul_sd mm_delta_x mm_delta_x;
          mm_ySquare = mm_mul_sd mm_delta_y mm_delta_y;
          mm_distSquare = mm_max_sd (mm_set1_pd minDistSquare) (mm_add_sd mm_xSquare mm_ySquare);
          mm_t = (if \<not> use_ksquare b
                  then mm_div_sd (mm_load_sd (m_nodeWeight C) u) mm_distSquare
                  else mm_div_sd (mm_set1_pd (m_idealEdgeLength conf * m_idealEdgeLength conf))
                                 mm_distSquare)
      in (mm_add_sd (fst acc) (mm_mul_sd mm_delta_x mm_t),
          mm_add_sd (snd acc) (mm_mul_sd mm_delta_y mm_t)))"

text \<open>
  The loop \<^verbatim>\<open>for (u = u0; u + 1 < bound; u += 2) f(u);\<close> returns the final value of \<open>u\<close>,
  which the code reads after the loop, and the state.
\<close>

function loop_pd :: "(nat \<Rightarrow> 'a \<Rightarrow> 'a) \<Rightarrow> nat \<Rightarrow> nat \<Rightarrow> 'a \<Rightarrow> nat \<times> 'a" where
  "loop_pd f u bound acc =
     (if u + 1 < bound then loop_pd f (u + 2) bound (f u acc) else (u, acc))"
  by pat_completeness auto
termination
  by (relation "measure (\<lambda>(f, u, bound, acc). bound - u)") auto

declare loop_pd.simps [simp del]

definition repulsive_node_sse3 :: "Build \<Rightarrow> SpringEmbedderFRExact \<Rightarrow> ArrayGraph \<Rightarrow> nat \<Rightarrow>
    real \<times> real" where
  "repulsive_node_sse3 b conf C v =
     (let n = m_numNodes C;
          r1 = loop_pd (compute_pd b conf C v) 0 v (mm_setzero_pd, mm_setzero_pd);
          uStart = fst r1 + 2;
          u = (if fst r1 = v then fst r1 + 1 else fst r1);
          acc = (if u < n then compute_sd b conf C v u (snd r1) else snd r1);
          r2 = loop_pd (compute_pd b conf C v) uStart n acc;
          acc = (if fst r2 < n then compute_sd b conf C v (fst r2) (snd r2) else snd r2);
          mm_disp_xv = mm_hadd_pd (fst acc) (fst acc);
          mm_disp_yv = mm_hadd_pd (snd acc) (snd acc)
      in (fst (mm_mul_sd mm_disp_xv (mm_set1_pd (c_rep conf))),
          fst (mm_mul_sd mm_disp_yv (mm_set1_pd (c_rep conf)))))"

definition repulsive_sse3 :: "Build \<Rightarrow> SpringEmbedderFRExact \<Rightarrow> ArrayGraph \<Rightarrow>
    real list \<times> real list" where
  "repulsive_sse3 b conf C =
     (map (\<lambda>v. fst (repulsive_node_sse3 b conf C v)) [0..<m_numNodes C],
      map (\<lambda>v. snd (repulsive_node_sse3 b conf C v)) [0..<m_numNodes C])"

text \<open>The capping loop of the vectorized path: two nodes at a time, no convergence test.\<close>

definition capping_pd :: "real list \<times> real list \<Rightarrow> real \<Rightarrow> real \<Rightarrow> nat \<Rightarrow> ArrayGraph \<Rightarrow> ArrayGraph" where
  "capping_pd disp tx ty v C =
     (let mm_disp_xv = mm_load_pd (fst disp) v;
          mm_disp_yv = mm_load_pd (snd disp) v;
          mm_dist = mm_max_pd (mm_set1_pd minDist)
                      (mm_sqrt_pd (mm_add_pd (mm_mul_pd mm_disp_xv mm_disp_xv)
                                             (mm_mul_pd mm_disp_yv mm_disp_yv)));
          C = C\<lparr> m_x := mm_store_pd (m_x C) v
                   (mm_add_pd (mm_load_pd (m_x C) v)
                      (mm_mul_pd (mm_div_pd mm_disp_xv mm_dist)
                                 (mm_min_pd mm_dist (mm_set1_pd tx)))) \<rparr>
      in C\<lparr> m_y := mm_store_pd (m_y C) v
                   (mm_add_pd (mm_load_pd (m_y C) v)
                      (mm_mul_pd (mm_div_pd mm_disp_yv mm_dist)
                                 (mm_min_pd mm_dist (mm_set1_pd ty)))) \<rparr>)"

definition capping_last :: "real list \<times> real list \<Rightarrow> real \<Rightarrow> real \<Rightarrow> ArrayGraph \<Rightarrow> ArrayGraph" where
  "capping_last disp tx ty C =
     (if m_numNodes C mod 2 \<noteq> 0
      then
        let v = m_numNodes C - 1;
            dist = max minDist (sqrt (fst disp ! v * fst disp ! v + snd disp ! v * snd disp ! v))
        in C\<lparr> m_x := (m_x C)[v := m_x C ! v + fst disp ! v / dist * min dist tx],
              m_y := (m_y C)[v := m_y C ! v + snd disp ! v / dist * min dist ty] \<rparr>
      else C)"

definition capping_sse3 :: "real list \<times> real list \<Rightarrow> real \<Rightarrow> real \<Rightarrow> ArrayGraph \<Rightarrow> ArrayGraph" where
  "capping_sse3 disp tx ty C =
     capping_last disp tx ty (snd (loop_pd (capping_pd disp tx ty) 0 (m_numNodes C) C))"

text \<open>
  The state of the \<^verbatim>\<open>for\<close> loop of \<open>mainStep_sse3\<close>: the component, \<open>tx\<close>, \<open>ty\<close>, \<open>cF\<close> and the
  loop counter \<open>i\<close>. Every thread of the parallel region holds the same \<open>tx\<close>, \<open>ty\<close>, \<open>cF\<close>;
  the passes are separated by barriers, so the model runs them one after the other.
\<close>

type_synonym forState = "ArrayGraph \<times> real \<times> real \<times> int \<times> int"

definition fs_C :: "forState \<Rightarrow> ArrayGraph" where
  "fs_C s = fst s"

definition fs_tx :: "forState \<Rightarrow> real" where
  "fs_tx s = fst (snd s)"

definition fs_ty :: "forState \<Rightarrow> real" where
  "fs_ty s = fst (snd (snd s))"

definition fs_cF :: "forState \<Rightarrow> int" where
  "fs_cF s = fst (snd (snd (snd s)))"

definition fs_i :: "forState \<Rightarrow> int" where
  "fs_i s = snd (snd (snd (snd s)))"

definition mainStep_sse3_body :: "Build \<Rightarrow> SpringEmbedderFRExact \<Rightarrow> forState \<Rightarrow> forState" where
  "mainStep_sse3_body b conf s =
     (let disp = repulsive_sse3 b conf (fs_C s);
          disp = attractive conf (fs_C s) disp;
          C = capping_sse3 disp (fs_tx s) (fs_ty s) (fs_C s);
          t = cool conf (fs_tx s, fs_ty s, fs_cF s)
      in (C, fst t, fst (snd t), snd (snd t), fs_i s + 1))"

function mainStep_sse3_for :: "Build \<Rightarrow> SpringEmbedderFRExact \<Rightarrow> forState \<Rightarrow> forState" where
  "mainStep_sse3_for b conf s =
     (if fs_i s \<le> m_iterations conf
      then mainStep_sse3_for b conf (mainStep_sse3_body b conf s) else s)"
  by pat_completeness auto
termination
  by (relation "measure (\<lambda>(b, conf, s). nat (m_iterations conf + 1 - fs_i s))")
     (auto simp: mainStep_sse3_body_def Let_def fs_i_def)

declare mainStep_sse3_for.simps [simp del]

definition mainStep_sse3_init :: "SpringEmbedderFRExact \<Rightarrow> ArrayGraph \<Rightarrow> forState" where
  "mainStep_sse3_init conf C = (C, m_txNull conf, m_tyNull conf, 1, 1)"

definition mainStep_sse3 :: "Build \<Rightarrow> SpringEmbedderFRExact \<Rightarrow> ArrayGraph \<Rightarrow> ArrayGraph" where
  "mainStep_sse3 b conf C =
     (if sse3_extensions b
      then fs_C (mainStep_sse3_for b conf (mainStep_sse3_init conf C))
      else mainStep conf C)"

section \<open>Orchestrator\<close>

text \<open>
  Modelled from the spec: \<^verbatim>\<open>GraphAttributes::clearAllBends\<close> is defined outside the
  sources at hand. It removes the bend points of every edge.
\<close>

definition clearAllBends :: "GraphAttributes \<Rightarrow> GraphAttributes" where
  "clearAllBends AG = AG\<lparr> ga_bends := (\<lambda>e. []) \<rparr>"

text \<open>Lines 187 to 195 of \<open>call\<close>: the initializer and the engine, for two nodes or more.\<close>

definition call_layout :: "Build \<Rightarrow> SpringEmbedderFRExact \<Rightarrow> ArrayGraph \<Rightarrow>
    (SpringEmbedderFRExact \<times> ArrayGraph) option" where
  "call_layout b conf component =
     (if m_numNodes component \<ge> 2
      then
        (case initialize conf component of
           None \<Rightarrow> None
         | Some (conf', component') \<Rightarrow>
             Some (conf', if haveSSE3 b then mainStep_sse3 b conf' component'
                          else mainStep conf' component'))
      else Some (conf, component))"

text \<open>
  The write-back loop, one compact index \<open>vCopy\<close>; the state is the attribute store and
  \<open>minX\<close>, \<open>maxX\<close>, \<open>minY\<close>, \<open>maxY\<close>.
\<close>

type_synonym wbState = "GraphAttributes \<times> real \<times> real \<times> real \<times> real"

definition call_writeback_node :: "ArrayGraph \<Rightarrow> nat \<Rightarrow> wbState \<Rightarrow> wbState" where
  "call_writeback_node component vCopy st =
     (case st of (AG, minX, maxX, minY, maxY) \<Rightarrow>
        let v = m_orig component ! vCopy;
            AG = AG\<lparr> ga_x := (ga_x AG)(v := m_x component ! vCopy) \<rparr>;
            AG = AG\<lparr> ga_y := (ga_y AG)(v := m_y component ! vCopy) \<rparr>;
            minX = (if ga_x AG v - ga_width AG v / 2 < minX
                    then ga_x AG v - ga_width AG v / 2 else minX);
            maxX = (if ga_x AG v + ga_width AG v / 2 > maxX
                    then ga_x AG v + ga_width AG v / 2 else maxX);
            minY = (if ga_y AG v - ga_height AG v / 2 < minY
                    then ga_y AG v - ga_height AG v / 2 else minY);
            maxY = (if ga_y AG v + ga_height AG v / 2 > maxY
                    then ga_y AG v + ga_height AG v / 2 else maxY)
        in (AG, minX, maxX, minY, maxY))"

definition call_shift_node :: "ArrayGraph \<Rightarrow> real \<Rightarrow> real \<Rightarrow> nat \<Rightarrow> GraphAttributes \<Rightarrow>
    GraphAttributes" where
  "call_shift_node component minX minY vCopy AG =
     (let v = m_orig component ! vCopy;
          AG = AG\<lparr> ga_x := (ga_x AG)(v := ga_x AG v - minX) \<rparr>
      in AG\<lparr> ga_y := (ga_y AG)(v := ga_y AG v - minY) \<rparr>)"

text \<open>
  Lines 197 to 229: write the component back, move it to the origin and return its
  bounding box. \<^verbatim>\<open>component.m_x[0]\<close> is read first; with no node that read is outside
  the buffer, and the model returns \<open>None\<close>.
\<close>

definition call_writeback :: "SpringEmbedderFRExact \<Rightarrow> ArrayGraph \<Rightarrow> GraphAttributes \<Rightarrow>
    (GraphAttributes \<times> (real \<times> real)) option" where
  "call_writeback conf component AG =
     (if m_numNodes component = 0 then None
      else
        case fold (call_writeback_node component) [0..<m_numNodes component]
               (AG, m_x component ! 0, m_x component ! 0, m_y component ! 0, m_y component ! 0)
        of (AG, minX, maxX, minY, maxY) \<Rightarrow>
          let minX = minX - m_minDistCC conf;
              minY = minY - m_minDistCC conf;
              AG = fold (call_shift_node component minX minY) [0..<m_numNodes component] AG
          in Some (AG, (maxX - minX, maxY - minY)))"

text \<open>
  The state of the loop over the components: the solver, the \<open>ArrayGraph\<close>, the
  attribute store and the bounding boxes computed so far.
\<close>

type_synonym ccState = "SpringEmbedderFRExact \<times> ArrayGraph \<times> GraphAttributes \<times> (real \<times> real) list"

definition call_cc :: "Build \<Rightarrow> nat \<Rightarrow> ccState \<Rightarrow> ccState option" where
  "call_cc b i st =
     (case st of (conf, component, AG, boundingBox) \<Rightarrow>
        (case call_layout b conf (initCC AG component i) of
           None \<Rightarrow> None
         | Some (conf', component') \<Rightarrow>
             (case call_writeback conf' component' AG of
                None \<Rightarrow> None
              | Some (AG', box) \<Rightarrow> Some (conf', component', AG', boundingBox[i := box]))))"

fun call_loop :: "Build \<Rightarrow> nat list \<Rightarrow> ccState \<Rightarrow> ccState option" where
  "call_loop b [] st = Some st"
| "call_loop b (i # is) st =
     (case call_cc b i st of None \<Rightarrow> None | Some st' \<Rightarrow> call_loop b is st')"

text \<open>The last loop of \<open>call\<close>: every node is moved by the offset of its component.\<close>

definition call_offset_node :: "real \<Rightarrow> real \<Rightarrow> node \<Rightarrow> GraphAttributes \<Rightarrow> GraphAttributes" where
  "call_offset_node dx dy v AG =
     (let AG = AG\<lparr> ga_x := (ga_x AG)(v := ga_x AG v + dx) \<rparr>
      in AG\<lparr> ga_y := (ga_y AG)(v := ga_y AG v + dy) \<rparr>)"

definition call_offsets :: "ArrayGraph \<Rightarrow> (real \<times> real) list \<Rightarrow> GraphAttributes \<Rightarrow>
    GraphAttributes" where
  "call_offsets component offset AG =
     fold (\<lambda>i AG. fold (call_offset_node (fst (offset ! i)) (snd (offset ! i)))
                       (m_nodesInCC component ! i) AG)
          [0..<m_numCC component] AG"

text \<open>
  \<open>call\<close>. The collaborators are parameters: \<open>numCC\<close> and \<open>ccIndex\<close> are the results of
  \<^verbatim>\<open>connectedComponents\<close>, and \<open>packer\<close> is \<^verbatim>\<open>TileToRowsCCPacker::call\<close>, from the
  bounding boxes and the page ratio to one offset per component. The result is the
  attribute store after the call.
\<close>

definition call :: "Build \<Rightarrow> nat \<Rightarrow> (node \<Rightarrow> nat) \<Rightarrow> ((real \<times> real) list \<Rightarrow> real \<Rightarrow> (real \<times> real) list) \<Rightarrow>
    SpringEmbedderFRExact \<Rightarrow> GraphAttributes \<Rightarrow> GraphAttributes option" where
  "call b numCC ccIndex packer conf AG =
     (if nodes (constGraph AG) = [] then Some AG
      else
        let AG = clearAllBends AG;
            component = (ArrayGraph_ctor AG numCC ccIndex)\<lparr> ag_useNodeWeight := m_useNodeWeight conf \<rparr>
        in case call_loop b [0..<m_numCC component]
                  (conf, component, AG, replicate (m_numCC component) (0, 0)) of
             None \<Rightarrow> None
           | Some (conf', component', AG', boundingBox) \<Rightarrow>
               Some (call_offsets component' (packer boundingBox (m_pageRatio conf)) AG'))"

section \<open>Notions used in the statements and proofs\<close>

text \<open>The test of the capping loop that resets \<open>converged\<close> for node \<open>v\<close>.\<close>

definition exceeds :: "SpringEmbedderFRExact \<Rightarrow> real list \<times> real list \<Rightarrow> real \<Rightarrow> real \<Rightarrow> nat \<Rightarrow> bool" where
  "exceeds conf disp tx ty v =
     (let xd = xdisplace (fst disp ! v) (snd disp ! v) tx;
          yd = ydisplace (fst disp ! v) (snd disp ! v) ty;
          threshold = m_convTolerance conf * m_idealEdgeLength conf
      in xd * xd + yd * yd > threshold * threshold)"

text \<open>The displacement buffers after the repulsive and the attractive pass.\<close>

definition disp_of :: "SpringEmbedderFRExact \<Rightarrow> ArrayGraph \<Rightarrow> real list \<times> real list" where
  "disp_of conf C = attractive conf C (repulsive conf C)"

text \<open>
  What holds of the loop state before every iteration: the buffers keep their size, the
  temperatures are not negative and the cooling counter is at least 1.
\<close>

definition loop_inv :: "nat \<Rightarrow> loopState \<Rightarrow> bool" where
  "loop_inv n s \<longleftrightarrow> m_numNodes (ls_C s) = n \<and> length (m_x (ls_C s)) = n \<and> length (m_y (ls_C s)) = n
       \<and> 0 \<le> ls_tx s \<and> 0 \<le> ls_ty s \<and> 1 \<le> ls_cF s"

text \<open>The contribution of node \<open>u\<close> to the repulsive displacement of node \<open>v\<close>.\<close>

definition rep_x :: "ArrayGraph \<Rightarrow> nat \<Rightarrow> nat \<Rightarrow> real" where
  "rep_x C v u = (m_x C ! v - m_x C ! u) * (m_nodeWeight C ! u / repDistSquare C v u)"

definition rep_y :: "ArrayGraph \<Rightarrow> nat \<Rightarrow> nat \<Rightarrow> real" where
  "rep_y C v u = (m_y C ! v - m_y C ! u) * (m_nodeWeight C ! u / repDistSquare C v u)"

text \<open>The value of the counter after the loop that \<open>loop_pd\<close> models.\<close>

definition pd_end :: "nat \<Rightarrow> nat \<Rightarrow> nat" where
  "pd_end u bound = u + 2 * ((bound - u) div 2)"

text \<open>The sum of the two elements of a \<^verbatim>\<open>__m128d\<close>.\<close>

definition tot :: "m128d \<Rightarrow> real" where
  "tot a = fst a + snd a"

text \<open>The component after the capping pass has moved the nodes below \<open>u\<close>.\<close>

definition capped :: "real list \<times> real list \<Rightarrow> real \<Rightarrow> real \<Rightarrow> ArrayGraph \<Rightarrow> nat \<Rightarrow> ArrayGraph" where
  "capped disp tx ty C u =
     C\<lparr> m_x := map (\<lambda>v. m_x C ! v + xdisplace (fst disp ! v) (snd disp ! v) tx) [0..<u]
                  @ drop u (m_x C),
        m_y := map (\<lambda>v. m_y C ! v + ydisplace (fst disp ! v) (snd disp ! v) ty) [0..<u]
                  @ drop u (m_y C) \<rparr>"

text \<open>A component of two nodes at the same coordinates, with edge indices in range.\<close>

definition coincident :: "ArrayGraph \<Rightarrow> bool" where
  "coincident C \<longleftrightarrow> m_numNodes C = 2 \<and> length (m_x C) = 2 \<and> length (m_y C) = 2
      \<and> m_x C ! 0 = m_x C ! 1 \<and> m_y C ! 0 = m_y C ! 1
      \<and> (\<forall>e<m_numEdges C. m_src C ! e < 2 \<and> m_tgt C ! e < 2)"

text \<open>
  The x displacement of node 0 of a pair at horizontal distance \<open>d\<close>, after the repulsive
  and the attractive pass.
\<close>

definition pair_force :: "SpringEmbedderFRExact \<Rightarrow> real \<Rightarrow> real" where
  "pair_force conf d = d * d / m_idealEdgeLength conf - c_rep conf / d"

text \<open>
  What \<^verbatim>\<open>Graph\<close> guarantees and \<open>initCC\<close> relies on. The twin nodes that the edge list
  gives node \<open>v\<close>: one for every edge end at \<open>v\<close>, so a self-loop gives two.
\<close>

definition twins :: "(node \<times> node) list \<Rightarrow> node \<Rightarrow> node list" where
  "twins es v = concat (map (\<lambda>(s, t). (if s = v then [t] else []) @ (if t = v then [s] else [])) es)"

text \<open>
  A node list \<open>ns\<close> is a component of \<open>G\<close> as \<^verbatim>\<open>connectedComponents\<close> delivers it: no
  node twice, the adjacency entries of its nodes are the edge ends at them, and every
  neighbour of a node of \<open>ns\<close> is in \<open>ns\<close>.
\<close>

definition component_ok :: "Graph \<Rightarrow> node list \<Rightarrow> bool" where
  "component_ok G ns \<longleftrightarrow>
     distinct ns
     \<and> (\<forall>v\<in>set ns. mset (adjEntries G v) = mset (twins (edges G) v))
     \<and> (\<forall>v\<in>set ns. \<forall>w\<in>set (adjEntries G v). w \<in> set ns)"

text \<open>An undirected edge, written with its smaller endpoint first.\<close>

definition norm_edge :: "node \<times> node \<Rightarrow> node \<times> node" where
  "norm_edge e = (min (fst e) (snd e), max (fst e) (snd e))"

text \<open>The edges an \<open>ArrayGraph\<close> stores, as pairs of original nodes.\<close>

definition stored_edges :: "ArrayGraph \<Rightarrow> (node \<times> node) list" where
  "stored_edges C = map (\<lambda>(a, b). (m_orig C ! a, m_orig C ! b)) (zip (m_src C) (m_tgt C))"

text \<open>The adjacency entries of \<open>v\<close> that \<open>initCC\<close> records: those with \<open>v < w\<close>.\<close>

definition upper :: "Graph \<Rightarrow> node \<Rightarrow> node list" where
  "upper G v = filter (\<lambda>w. v < w) (adjEntries G v)"

text \<open>The engine keeps the sizes of a component and the members of \<open>ArrayGraph\<close> it does not write.\<close>

definition same_shape :: "ArrayGraph \<Rightarrow> ArrayGraph \<Rightarrow> bool" where
  "same_shape C C' \<longleftrightarrow>
     m_numNodes C' = m_numNodes C \<and> m_nodesInCC C' = m_nodesInCC C \<and> m_numCC C' = m_numCC C
     \<and> length (m_x C') = length (m_x C) \<and> length (m_y C') = length (m_y C)"

section \<open>Example inputs\<close>

text \<open>
  The constructor of \<open>SpringEmbedderFRExact\<close> with its default parameters. The ideal edge
  length and the component separation come from \<^verbatim>\<open>LayoutStandards\<close> and are parameters;
  \<open>m_txNull\<close> and \<open>m_tyNull\<close> are not set by the constructor and are written by
  \<open>initialize\<close> before they are read.
\<close>

definition SpringEmbedderFRExact_ctor :: "real \<Rightarrow> real \<Rightarrow> SpringEmbedderFRExact" where
  "SpringEmbedderFRExact_ctor idealEdgeLength ccSeparation =
     \<lparr> m_iterations = 1000, m_noise = True, m_coolingFunction = Factor,
       m_coolFactor_x = 9 / 10, m_coolFactor_y = 9 / 10,
       m_idealEdgeLength = idealEdgeLength, m_minDistCC = ccSeparation,
       m_pageRatio = 1, m_useNodeWeight = False, m_checkConvergence = True,
       m_convTolerance = 1 / 100, m_txNull = 0, m_tyNull = 0 \<rparr>"

text \<open>
  The result of \<^verbatim>\<open>connectedComponents\<close> on a connected graph: every node is in
  component 0. And a packer that leaves every component at the origin.
\<close>

definition connected_index :: "node \<Rightarrow> nat" where
  "connected_index v = 0"

definition no_offsets :: "(real \<times> real) list \<Rightarrow> real \<Rightarrow> (real \<times> real) list" where
  "no_offsets boxes ratio = map (\<lambda>b. (0, 0)) boxes"

text \<open>
  The component of two nodes \<open>0\<close> and \<open>1\<close> joined by one edge, at the given
  coordinates, as \<open>initCC\<close> builds it.
\<close>

definition pair_component :: "real \<Rightarrow> real \<Rightarrow> real \<Rightarrow> real \<Rightarrow> ArrayGraph" where
  "pair_component x0 y0 x1 y1 =
     \<lparr> m_numNodes = 2, m_numEdges = 1, m_numCC = 1,
       m_orig = [0, 1], m_src = [0], m_tgt = [1],
       m_x = [x0, x1], m_y = [y0, y1], m_nodeWeight = [1, 1],
       ag_useNodeWeight = False,
       m_mapNode = (\<lambda>v. 0)(0 := 0, 1 := 1),
       m_nodesInCC = [[0, 1]] \<rparr>"

definition pair_graph :: Graph where
  "pair_graph = \<lparr> nodes = [0, 1], edges = [(0, 1)],
                   adjEntries = (\<lambda>v. [])(0 := [1], 1 := [0]) \<rparr>"

definition pair_attributes :: "real \<Rightarrow> real \<Rightarrow> real \<Rightarrow> real \<Rightarrow> GraphAttributes" where
  "pair_attributes x0 y0 x1 y1 =
     \<lparr> constGraph = pair_graph,
       ga_x = (\<lambda>v. 0)(0 := x0, 1 := x1), ga_y = (\<lambda>v. 0)(0 := y0, 1 := y1),
       ga_width = (\<lambda>v. 20), ga_height = (\<lambda>v. 20), ga_weight = (\<lambda>v. 1),
       ga_has_nodeWeight = False, ga_bends = (\<lambda>e. []) \<rparr>"

text \<open>The default solver with ideal edge length 1, after \<open>initialize\<close> on the pair at distance 1.\<close>

definition pair_solver :: SpringEmbedderFRExact where
  "pair_solver = (SpringEmbedderFRExact_ctor 1 20)\<lparr> m_txNull := 1 / 4, m_tyNull := 1 / 8 \<rparr>"

text \<open>A solver with a budget of two iterations and a convergence tolerance of one half.\<close>

definition tolerant_solver :: SpringEmbedderFRExact where
  "tolerant_solver = (SpringEmbedderFRExact_ctor 1 20)\<lparr> m_iterations := 2, m_convTolerance := 1 / 2 \<rparr>"

text \<open>
  The default solver with ideal edge length 1, after \<open>initialize\<close> on two nodes at the
  same coordinates.
\<close>

definition coincident_solver :: SpringEmbedderFRExact where
  "coincident_solver = (SpringEmbedderFRExact_ctor 1 20)\<lparr> m_txNull := sqrt 2 / 8, m_tyNull := sqrt 2 / 8 \<rparr>"

text \<open>
  A graph of one node, at \<open>(5, 7)\<close>, with a self-loop whose bend points are set; and the
  component \<open>initCC\<close> builds from it.
\<close>

definition single_attributes :: GraphAttributes where
  "single_attributes =
     \<lparr> constGraph = \<lparr> nodes = [0], edges = [(0, 0)], adjEntries = (\<lambda>v. [])(0 := [0, 0]) \<rparr>,
       ga_x = (\<lambda>v. 5), ga_y = (\<lambda>v. 7),
       ga_width = (\<lambda>v. 20), ga_height = (\<lambda>v. 20), ga_weight = (\<lambda>v. 1),
       ga_has_nodeWeight = False, ga_bends = (\<lambda>e. [(1, 2), (3, 4)]) \<rparr>"

definition single_component :: ArrayGraph where
  "single_component =
     \<lparr> m_numNodes = 1, m_numEdges = 0, m_numCC = 1,
       m_orig = [0], m_src = [], m_tgt = [],
       m_x = [5], m_y = [7], m_nodeWeight = [1],
       ag_useNodeWeight = False,
       m_mapNode = (\<lambda>v. 0)(0 := 0),
       m_nodesInCC = [[0]] \<rparr>"

text \<open>
  Two nodes \<open>0\<close> and \<open>1\<close> with three edges: \<open>1 \<rightarrow> 0\<close>, a self-loop at \<open>0\<close> and
  \<open>0 \<rightarrow> 1\<close>.
\<close>

definition loop_attributes :: GraphAttributes where
  "loop_attributes =
     \<lparr> constGraph = \<lparr> nodes = [0, 1], edges = [(1, 0), (0, 0), (0, 1)],
                       adjEntries = (\<lambda>v. [])(0 := [1, 0, 0, 1], 1 := [0, 0]) \<rparr>,
       ga_x = (\<lambda>v. 0)(0 := 3, 1 := 4), ga_y = (\<lambda>v. 5),
       ga_width = (\<lambda>v. 20), ga_height = (\<lambda>v. 20), ga_weight = (\<lambda>v. 1),
       ga_has_nodeWeight = False, ga_bends = (\<lambda>e. []) \<rparr>"

section \<open>The engine with an iteration budget of zero\<close>

lemma mainStep_while_converged:
  "ls_converged s \<Longrightarrow> mainStep_while conf s = s"
  by (simp add: mainStep_while.simps)

lemma mainStep_while_step:
  "\<not> ls_converged s \<Longrightarrow> mainStep_while conf s = mainStep_while conf (mainStep_body conf s)"
  by (subst mainStep_while.simps) simp

lemma mainStep_sse3_for_done:
  "m_iterations conf < fs_i s \<Longrightarrow> mainStep_sse3_for b conf s = s"
  by (simp add: mainStep_sse3_for.simps)

lemma mainStep_sse3_for_step:
  "fs_i s \<le> m_iterations conf \<Longrightarrow>
   mainStep_sse3_for b conf s = mainStep_sse3_for b conf (mainStep_sse3_body b conf s)"
  by (subst mainStep_sse3_for.simps) simp

lemma loop_pd_stop: "\<not> u + 1 < bound \<Longrightarrow> loop_pd f u bound acc = (u, acc)"
  by (simp add: loop_pd.simps)

lemma loop_pd_step: "u + 1 < bound \<Longrightarrow> loop_pd f u bound acc = loop_pd f (u + 2) bound (f u acc)"
  by (subst loop_pd.simps) simp

text \<open>
  Claim C6. If \<open>m_iterations\<close> is zero, the body of the loop runs on neither path: the
  \<^verbatim>\<open>while\<close> loop of \<open>mainStep\<close> and the \<^verbatim>\<open>for\<close> loop of \<open>mainStep_sse3\<close> return their
  initial state, so no repulsive, attractive or capping pass is executed and the engine
  returns the component it was given, which is the output of \<open>initialize\<close>.
\<close>

theorem zero_iterations_no_step:
  assumes "m_iterations conf = 0"
  shows "mainStep_while conf (mainStep_init conf C) = mainStep_init conf C
       \<and> mainStep_sse3_for b conf (mainStep_sse3_init conf C) = mainStep_sse3_init conf C
       \<and> mainStep conf C = C
       \<and> mainStep_sse3 b conf C = C"
proof -
  have w: "mainStep_while conf (mainStep_init conf C) = mainStep_init conf C"
    using assms by (intro mainStep_while_converged) (simp add: mainStep_init_def ls_converged_def)
  have f: "mainStep_sse3_for b conf (mainStep_sse3_init conf C) = mainStep_sse3_init conf C"
    using assms by (intro mainStep_sse3_for_done) (simp add: mainStep_sse3_init_def fs_i_def)
  have m: "mainStep conf C = C"
    unfolding mainStep_def w by (simp add: mainStep_init_def ls_C_def)
  have "mainStep_sse3 b conf C = C"
    unfolding mainStep_sse3_def f m by (simp add: mainStep_sse3_init_def fs_C_def)
  with w f m show ?thesis by simp
qed

theorem zero_iterations_no_step_witness:
  "m_iterations ((SpringEmbedderFRExact_ctor 1 20)\<lparr> m_iterations := 0 \<rparr>) = 0
   \<and> mainStep ((SpringEmbedderFRExact_ctor 1 20)\<lparr> m_iterations := 0 \<rparr>)
        (pair_component 0 0 1 0) = pair_component 0 0 1 0
   \<and> mainStep_sse3 \<lparr> haveSSE3 = True, sse3_extensions = True, use_ksquare = False \<rparr>
        ((SpringEmbedderFRExact_ctor 1 20)\<lparr> m_iterations := 0 \<rparr>)
        (pair_component 0 0 1 0) = pair_component 0 0 1 0"
  using zero_iterations_no_step
    [of "(SpringEmbedderFRExact_ctor 1 20)\<lparr> m_iterations := 0 \<rparr>" "pair_component 0 0 1 0"
        "\<lparr> haveSSE3 = True, sse3_extensions = True, use_ksquare = False \<rparr>"]
  by simp

section \<open>The layout initializer\<close>

lemma fold_nth_take:
  "n \<le> length xs \<Longrightarrow> fold (\<lambda>v. f (xs ! v)) [0..<n] a = fold f (take n xs) a"
proof (induction n)
  case 0
  then show ?case by simp
next
  case (Suc n)
  then show ?case by (simp add: take_Suc_conv_app_nth)
qed

lemma fold_updateMin: "fold (\<lambda>x m. updateMin m x) xs a = Min (insert a (set xs))"
proof (induction xs arbitrary: a)
  case Nil
  then show ?case by simp
next
  case (Cons x xs)
  have "updateMin a x = min x a" by (simp add: updateMin_def min_def)
  then show ?case using Cons
    by (cases "xs = []") (simp_all add: min.assoc min.commute min.left_commute)
qed

lemma fold_updateMax: "fold (\<lambda>x m. updateMax m x) xs a = Max (insert a (set xs))"
proof (induction xs arbitrary: a)
  case Nil
  then show ?case by simp
next
  case (Cons x xs)
  have "updateMax a x = max x a" by (simp add: updateMax_def max_def)
  then show ?case using Cons
    by (cases "xs = []") (simp_all add: max.assoc max.commute max.left_commute)
qed

lemma bbox_min:
  assumes "0 < length xs"
  shows "fold (\<lambda>v m. updateMin m (xs ! v)) [0..<length xs] (xs ! 0) = Min (set xs)"
proof -
  have "xs ! 0 \<in> set xs" using assms by simp
  then have "insert (xs ! 0) (set xs) = set xs" by auto
  then show ?thesis
    using fold_nth_take [of "length xs" xs "\<lambda>x m. updateMin m x" "xs ! 0"]
    by (simp add: fold_updateMin)
qed

lemma bbox_max:
  assumes "0 < length xs"
  shows "fold (\<lambda>v m. updateMax m (xs ! v)) [0..<length xs] (xs ! 0) = Max (set xs)"
proof -
  have "xs ! 0 \<in> set xs" using assms by simp
  then have "insert (xs ! 0) (set xs) = set xs" by auto
  then show ?thesis
    using fold_nth_take [of "length xs" xs "\<lambda>x m. updateMax m x" "xs ! 0"]
    by (simp add: fold_updateMax)
qed

lemma rescale_fold:
  assumes "j \<le> length (m_x C)" "length (m_y C) = length (m_x C)"
  shows "fold (\<lambda>v C. C\<lparr> m_x := (m_x C)[v := f (m_x C ! v)],
                         m_y := (m_y C)[v := g (m_y C ! v)] \<rparr>) [0..<j] C
         = C\<lparr> m_x := map f (take j (m_x C)) @ drop j (m_x C),
               m_y := map g (take j (m_y C)) @ drop j (m_y C) \<rparr>"
  using assms
proof (induction j)
  case 0
  then show ?case by simp
next
  case (Suc j)
  then have j: "j < length (m_x C)" "j < length (m_y C)" by simp_all
  have "(map f (take j (m_x C)) @ drop j (m_x C))[j := f (m_x C ! j)]
        = map f (take (Suc j) (m_x C)) @ drop (Suc j) (m_x C)"
    using j by (simp add: take_Suc_conv_app_nth list_update_append Cons_nth_drop_Suc [symmetric])
  moreover have "(map g (take j (m_y C)) @ drop j (m_y C))[j := g (m_y C ! j)]
        = map g (take (Suc j) (m_y C)) @ drop (Suc j) (m_y C)"
    using j by (simp add: take_Suc_conv_app_nth list_update_append Cons_nth_drop_Suc [symmetric])
  ultimately show ?case
    using Suc j by (simp add: nth_append)
qed

text \<open>
  Claim C4. For a component with at least one node (whose coordinate buffers hold
  \<open>m_numNodes\<close> entries), \<open>initialize\<close> takes the bounding box of the current positions,
  sets \<open>w = (xmax - xmin) + k\<close>, \<open>h = (ymax - ymin) + k\<close>, \<open>ratio = h / w\<close>,
  \<open>W = sqrt (nodeCount / ratio) * k\<close>, \<open>H = ratio * W\<close>, replaces every coordinate
  \<open>(x, y)\<close> by \<open>((x - xmin) * W / w, (y - ymin) * H / h)\<close> and sets the initial
  temperatures to \<open>W / 8\<close> and \<open>H / 8\<close>.
\<close>

theorem initialize_rescale:
  assumes "1 \<le> m_numNodes C"
    and "length (m_x C) = m_numNodes C" and "length (m_y C) = m_numNodes C"
  shows "initialize conf C =
     (let xmin = Min (set (m_x C)); xmax = Max (set (m_x C));
          ymin = Min (set (m_y C)); ymax = Max (set (m_y C));
          k = m_idealEdgeLength conf;
          w = (xmax - xmin) + k;
          h = (ymax - ymin) + k;
          ratio = h / w;
          W = sqrt (real (m_numNodes C) / ratio) * k;
          H = ratio * W
      in Some (conf\<lparr> m_txNull := W / 8, m_tyNull := H / 8 \<rparr>,
               C\<lparr> m_x := map (\<lambda>x. (x - xmin) * W / w) (m_x C),
                  m_y := map (\<lambda>y. (y - ymin) * H / h) (m_y C) \<rparr>))"
proof -
  have px: "0 < length (m_x C)" and py: "0 < length (m_y C)" using assms by simp_all
  have nx: "m_numNodes C = length (m_x C)" using assms by simp
  have ny: "m_numNodes C = length (m_y C)" using assms by simp
  have xmin: "fold (\<lambda>v m. updateMin m (m_x C ! v)) [0..<m_numNodes C] (m_x C ! 0) = Min (set (m_x C))"
    unfolding nx by (rule bbox_min [OF px])
  have xmax: "fold (\<lambda>v m. updateMax m (m_x C ! v)) [0..<m_numNodes C] (m_x C ! 0) = Max (set (m_x C))"
    unfolding nx by (rule bbox_max [OF px])
  have ymin: "fold (\<lambda>v m. updateMin m (m_y C ! v)) [0..<m_numNodes C] (m_y C ! 0) = Min (set (m_y C))"
    unfolding ny by (rule bbox_min [OF py])
  have ymax: "fold (\<lambda>v m. updateMax m (m_y C ! v)) [0..<m_numNodes C] (m_y C ! 0) = Max (set (m_y C))"
    unfolding ny by (rule bbox_max [OF py])
  have resc: "fold (\<lambda>v Ca. Ca\<lparr> m_x := (m_x Ca)[v := (m_x Ca ! v - a) * fx],
                         m_y := (m_y Ca)[v := (m_y Ca ! v - b) * fy] \<rparr>) [0..<m_numNodes C] C
         = C\<lparr> m_x := map (\<lambda>x. (x - a) * fx) (m_x C), m_y := map (\<lambda>y. (y - b) * fy) (m_y C) \<rparr>"
    for a b fx fy
    using rescale_fold [where j = "m_numNodes C" and C = C
        and f = "\<lambda>x. (x - a) * fx" and g = "\<lambda>y. (y - b) * fy"] assms by simp
  show ?thesis
    using assms(1) unfolding initialize_def Let_def xmin xmax ymin ymax resc
    by simp
qed

theorem initialize_rescale_witness:
  "1 \<le> m_numNodes (pair_component 3 5 4 5)
   \<and> length (m_x (pair_component 3 5 4 5)) = m_numNodes (pair_component 3 5 4 5)
   \<and> length (m_y (pair_component 3 5 4 5)) = m_numNodes (pair_component 3 5 4 5)
   \<and> initialize (SpringEmbedderFRExact_ctor 1 20) (pair_component 3 5 4 5)
       = Some ((SpringEmbedderFRExact_ctor 1 20)\<lparr> m_txNull := 1 / 4, m_tyNull := 1 / 8 \<rparr>,
               pair_component 0 0 1 0)"
proof -
  have h: "1 \<le> m_numNodes (pair_component 3 5 4 5)"
    "length (m_x (pair_component 3 5 4 5)) = m_numNodes (pair_component 3 5 4 5)"
    "length (m_y (pair_component 3 5 4 5)) = m_numNodes (pair_component 3 5 4 5)"
    by (simp_all add: pair_component_def)
  show ?thesis
    using h initialize_rescale [OF h, of "SpringEmbedderFRExact_ctor 1 20"]
    by (simp add: pair_component_def SpringEmbedderFRExact_ctor_def Let_def)
qed

section \<open>The cooling scheduler\<close>

lemma fold_updateMin_le: "fold (\<lambda>v m. updateMin m (f v)) vs a \<le> a"
proof (induction vs arbitrary: a)
  case Nil
  then show ?case by simp
next
  case (Cons v vs)
  have "fold (\<lambda>v m. updateMin m (f v)) vs (updateMin a (f v)) \<le> updateMin a (f v)"
    by (rule Cons.IH)
  also have "updateMin a (f v) \<le> a" by (simp add: updateMin_def)
  finally show ?case by simp
qed

lemma fold_updateMax_ge: "a \<le> fold (\<lambda>v m. updateMax m (f v)) vs a"
proof (induction vs arbitrary: a)
  case Nil
  then show ?case by simp
next
  case (Cons v vs)
  have "a \<le> updateMax a (f v)" by (simp add: updateMax_def)
  also have "updateMax a (f v) \<le> fold (\<lambda>v m. updateMax m (f v)) vs (updateMax a (f v))"
    by (rule Cons.IH)
  finally show ?case by simp
qed

lemma initialize_temperatures_nonneg:
  assumes "0 \<le> m_idealEdgeLength conf0" and "initialize conf0 C = Some (conf, C')"
  shows "0 \<le> m_txNull conf \<and> 0 \<le> m_tyNull conf
       \<and> m_coolingFunction conf = m_coolingFunction conf0
       \<and> m_coolFactor_x conf = m_coolFactor_x conf0
       \<and> m_coolFactor_y conf = m_coolFactor_y conf0"
proof -
  define n where "n = m_numNodes C"
  define k where "k = m_idealEdgeLength conf0"
  define xmin where "xmin = fold (\<lambda>v m. updateMin m (m_x C ! v)) [0..<n] (m_x C ! 0)"
  define xmax where "xmax = fold (\<lambda>v m. updateMax m (m_x C ! v)) [0..<n] (m_x C ! 0)"
  define ymin where "ymin = fold (\<lambda>v m. updateMin m (m_y C ! v)) [0..<n] (m_y C ! 0)"
  define ymax where "ymax = fold (\<lambda>v m. updateMax m (m_y C ! v)) [0..<n] (m_y C ! 0)"
  define w where "w = xmax - xmin + k"
  define h where "h = ymax - ymin + k"
  define W where "W = sqrt (real n / (h / w)) * k"
  have "xmin \<le> m_x C ! 0" "m_x C ! 0 \<le> xmax" "ymin \<le> m_y C ! 0" "m_y C ! 0 \<le> ymax"
    unfolding xmin_def xmax_def ymin_def ymax_def
    by (rule fold_updateMin_le fold_updateMax_ge)+
  then have w: "0 \<le> w" and h: "0 \<le> h"
    using assms(1) by (simp_all add: w_def h_def k_def)
  have W: "0 \<le> W"
    unfolding W_def using w h assms(1) by (simp add: k_def)
  have H: "0 \<le> h / w * W / 8" using w h W by simp
  have c: "conf = conf0\<lparr> m_txNull := W / 8, m_tyNull := h / w * W / 8 \<rparr>"
    using assms(2)
    by (simp add: initialize_def Let_def W_def h_def w_def xmin_def xmax_def ymin_def ymax_def
          n_def k_def split: if_splits)
  have "0 \<le> W / 8" using W by simp
  then show ?thesis unfolding c using H by (simp del: times_divide_eq_left times_divide_eq_right divide_divide_eq_left)
qed

lemma cool_Factor:
  "m_coolingFunction conf = Factor \<Longrightarrow>
   cool conf (tx, ty, cF) = (tx * m_coolFactor_x conf, ty * m_coolFactor_y conf, cF)"
  by (simp add: cool_def)

lemma cool_Logarithmic:
  "m_coolingFunction conf = Logarithmic \<Longrightarrow>
   cool conf (tx, ty, cF) =
     (if mylog2 cF \<noteq> 0 then (m_txNull conf / mylog2 cF, m_tyNull conf / mylog2 cF, cF + 1)
      else (tx, ty, cF + 1))"
  by (simp add: cool_def Let_def)

lemma mylog2_one: "mylog2 1 = 0"
  by (simp add: mylog2_def)

lemma mylog2_pos: "2 \<le> c \<Longrightarrow> 0 < mylog2 c"
  by (simp add: mylog2_def)

lemma mylog2_mono: "1 \<le> c \<Longrightarrow> c \<le> d \<Longrightarrow> mylog2 c \<le> mylog2 d"
  by (simp add: mylog2_def)

lemma cool_iter_Factor:
  assumes "m_coolingFunction conf = Factor" "0 \<le> m_coolFactor_x conf" "0 \<le> m_coolFactor_y conf"
    and "0 \<le> tx0" "0 \<le> ty0"
  shows "0 \<le> fst ((cool conf ^^ n) (tx0, ty0, c)) \<and> 0 \<le> fst (snd ((cool conf ^^ n) (tx0, ty0, c)))"
proof (induction n)
  case 0
  then show ?case using assms by simp
next
  case (Suc n)
  obtain tx ty cF where s: "(cool conf ^^ n) (tx0, ty0, c) = (tx, ty, cF)"
    by (cases "(cool conf ^^ n) (tx0, ty0, c)") auto
  show ?case using Suc assms(1,2,3) by (simp add: s cool_Factor)
qed

lemma cool_iter_Logarithmic:
  assumes "m_coolingFunction conf = Logarithmic"
  shows "(cool conf ^^ n) (m_txNull conf, m_tyNull conf, 1) =
     (if n \<le> 1 then (m_txNull conf, m_tyNull conf, 1 + int n)
      else (m_txNull conf / mylog2 (int n), m_tyNull conf / mylog2 (int n), 1 + int n))"
proof (induction n)
  case 0
  then show ?case by simp
next
  case (Suc n)
  show ?case
  proof (cases "n = 0")
    case True
    then show ?thesis using assms by (simp add: cool_Logarithmic mylog2_one)
  next
    case False
    then have "0 < mylog2 (1 + int n)" by (intro mylog2_pos) simp
    then show ?thesis using Suc False assms
      by (simp add: cool_Logarithmic add.commute)
  qed
qed

lemma upt_0_2: "[0..<2] = [0, 1]"
  by (simp add: numeral_2_eq_2)

lemma initialize_pair_example:
  "initialize (SpringEmbedderFRExact_ctor 1 20) (pair_component 3 5 4 5)
     = Some ((SpringEmbedderFRExact_ctor 1 20)\<lparr> m_txNull := 1 / 4, m_tyNull := 1 / 8 \<rparr>,
             pair_component 0 0 1 0)"
  by (simp add: initialize_def pair_component_def SpringEmbedderFRExact_ctor_def Let_def
        updateMin_def updateMax_def upt_0_2)

text \<open>
  Claim C5. The temperatures start as the ones \<open>initialize\<close> computes (from a
  non-negative ideal edge length) and the counter \<open>cF\<close> at 1. After any number \<open>n\<close> of
  calls of \<open>cool\<close>, one more call increases neither \<open>tx\<close> nor \<open>ty\<close>, in Factor mode with
  both factors in \<open>(0, 1]\<close> and in Logarithmic mode; and a Logarithmic call with
  \<open>cF = 1\<close> leaves both temperatures as they are. \<open>mylog2\<close> is the binary logarithm of
  the specification.
\<close>

theorem cool_non_increasing:
  assumes "0 \<le> m_idealEdgeLength conf0"
    and "initialize conf0 C = Some (conf, C')"
    and "m_coolingFunction conf = Factor \<longrightarrow>
           0 < m_coolFactor_x conf \<and> m_coolFactor_x conf \<le> 1 \<and>
           0 < m_coolFactor_y conf \<and> m_coolFactor_y conf \<le> 1"
    and "s = (cool conf ^^ n) (m_txNull conf, m_tyNull conf, 1)"
  shows "fst (cool conf s) \<le> fst s \<and> fst (snd (cool conf s)) \<le> fst (snd s)
       \<and> (m_coolingFunction conf = Logarithmic \<longrightarrow> cool conf (tx, ty, 1) = (tx, ty, 2))"
proof -
  have t0: "0 \<le> m_txNull conf" "0 \<le> m_tyNull conf"
    using initialize_temperatures_nonneg [OF assms(1,2)] by simp_all
  have first: "m_coolingFunction conf = Logarithmic \<longrightarrow> cool conf (tx, ty, 1) = (tx, ty, 2)"
    by (simp add: cool_Logarithmic mylog2_one)
  have step: "fst (cool conf s) \<le> fst s \<and> fst (snd (cool conf s)) \<le> fst (snd s)"
  proof (cases "m_coolingFunction conf")
    case Factor
    obtain tx1 ty1 cF where s1: "s = (tx1, ty1, cF)" by (cases s) auto
    have f: "0 \<le> m_coolFactor_x conf" "m_coolFactor_x conf \<le> 1"
      "0 \<le> m_coolFactor_y conf" "m_coolFactor_y conf \<le> 1"
      using assms(3) Factor by simp_all
    have "0 \<le> tx1 \<and> 0 \<le> ty1"
      using cool_iter_Factor [OF Factor f(1) f(3) t0, of n 1] assms(4) [symmetric] s1 by simp
    then have "tx1 * m_coolFactor_x conf \<le> tx1" "ty1 * m_coolFactor_y conf \<le> ty1"
      using f by (simp_all add: mult_left_le)
    then show ?thesis by (simp add: s1 cool_Factor [OF Factor])
  next
    case Logarithmic
    note it = cool_iter_Logarithmic [OF Logarithmic]
    consider "n = 0" | "n = 1" | "2 \<le> n" by linarith
    then show ?thesis
    proof cases
      case 1
      then show ?thesis using assms(4) by (simp add: cool_Logarithmic [OF Logarithmic] mylog2_one)
    next
      case 2
      have "mylog2 2 = 1" by (simp add: mylog2_def)
      then show ?thesis using assms(4) 2 it [of 1]
        by (simp add: cool_Logarithmic [OF Logarithmic])
    next
      case 3
      then have p: "0 < mylog2 (int n)" by (intro mylog2_pos) simp
      have m: "mylog2 (int n) \<le> mylog2 (int n + 1)" using 3 by (intro mylog2_mono) simp_all
      then have q: "mylog2 (int n + 1) \<noteq> 0" using p by simp
      have sn: "s = (m_txNull conf / mylog2 (int n), m_tyNull conf / mylog2 (int n), 1 + int n)"
        using assms(4) it [of n] 3 by simp
      have "m_txNull conf / mylog2 (int n + 1) \<le> m_txNull conf / mylog2 (int n)"
        "m_tyNull conf / mylog2 (int n + 1) \<le> m_tyNull conf / mylog2 (int n)"
        using t0 p m by (auto intro: divide_left_mono mult_pos_pos order_less_le_trans)
      then show ?thesis using q
        by (simp add: sn cool_Logarithmic [OF Logarithmic] add.commute)
    qed
  qed
  show ?thesis using step first by simp
qed

theorem cool_non_increasing_witness:
  "0 \<le> m_idealEdgeLength (SpringEmbedderFRExact_ctor 1 20)
   \<and> initialize (SpringEmbedderFRExact_ctor 1 20) (pair_component 3 5 4 5)
       = Some ((SpringEmbedderFRExact_ctor 1 20)\<lparr> m_txNull := 1 / 4, m_tyNull := 1 / 8 \<rparr>,
               pair_component 0 0 1 0)
   \<and> (cool ((SpringEmbedderFRExact_ctor 1 20)\<lparr> m_txNull := 1 / 4, m_tyNull := 1 / 8 \<rparr>)
         ^^ Suc (Suc 0)) (1 / 4, 1 / 8, 1) = (81 / 400, 81 / 800, 1)
   \<and> fst (cool ((SpringEmbedderFRExact_ctor 1 20)\<lparr> m_txNull := 1 / 4, m_tyNull := 1 / 8 \<rparr>)
         (81 / 400, 81 / 800, 1)) \<le> 81 / 400
   \<and> fst (snd (cool ((SpringEmbedderFRExact_ctor 1 20)\<lparr> m_txNull := 1 / 4, m_tyNull := 1 / 8 \<rparr>)
         (81 / 400, 81 / 800, 1))) \<le> 81 / 800"
proof -
  let ?d = "SpringEmbedderFRExact_ctor 1 20"
  let ?c = "?d\<lparr> m_txNull := 1 / 4, m_tyNull := 1 / 8 \<rparr>"
  have k: "0 \<le> m_idealEdgeLength ?d" by (simp add: SpringEmbedderFRExact_ctor_def)
  have f: "m_coolingFunction ?c = Factor \<longrightarrow>
           0 < m_coolFactor_x ?c \<and> m_coolFactor_x ?c \<le> 1 \<and>
           0 < m_coolFactor_y ?c \<and> m_coolFactor_y ?c \<le> 1"
    by (simp add: SpringEmbedderFRExact_ctor_def)
  have s: "(cool ?c ^^ Suc (Suc 0)) (m_txNull ?c, m_tyNull ?c, 1) = (81 / 400, 81 / 800, 1)"
    by (simp add: cool_def SpringEmbedderFRExact_ctor_def)
  have t: "(cool ?c ^^ Suc (Suc 0)) (1 / 4, 1 / 8, 1) = (81 / 400, 81 / 800, 1)"
    using s by simp
  show ?thesis
    using cool_non_increasing [OF k initialize_pair_example f s [symmetric]]
      k initialize_pair_example t
    by simp
qed

section \<open>The capping pass\<close>

lemma minDist_pos: "0 < minDist"
  by (simp add: minDist_def)

lemma capDist_pos: "0 < capDist dx dy"
  using minDist_pos by (simp add: capDist_def less_max_iff_disj)

lemma abs_le_capDist: "\<bar>dx\<bar> \<le> capDist dx dy" "\<bar>dy\<bar> \<le> capDist dx dy"
proof -
  have "\<bar>dx\<bar> = sqrt (dx * dx)" by simp
  also have "\<dots> \<le> sqrt (dx * dx + dy * dy)" by (rule real_sqrt_le_mono) simp
  also have "\<dots> \<le> capDist dx dy" by (simp add: capDist_def)
  finally show "\<bar>dx\<bar> \<le> capDist dx dy" .
  have "\<bar>dy\<bar> = sqrt (dy * dy)" by simp
  also have "\<dots> \<le> sqrt (dx * dx + dy * dy)" by (rule real_sqrt_le_mono) simp
  also have "\<dots> \<le> capDist dx dy" by (simp add: capDist_def)
  finally show "\<bar>dy\<bar> \<le> capDist dx dy" .
qed

lemma capped_le:
  fixes a d t :: real
  assumes "0 < d" "\<bar>a\<bar> \<le> d" "0 \<le> t"
  shows "\<bar>a / d * min d t\<bar> \<le> t"
proof -
  have "\<bar>a / d\<bar> \<le> 1" using assms(1,2) by simp
  moreover have "0 \<le> min d t" "min d t \<le> t" using assms(1,3) by simp_all
  ultimately have "\<bar>a / d\<bar> * min d t \<le> 1 * t"
    by (intro mult_mono) simp_all
  then show ?thesis using \<open>0 \<le> min d t\<close> by (simp add: abs_mult)
qed

lemma xdisplace_le: "0 \<le> tx \<Longrightarrow> \<bar>xdisplace dx dy tx\<bar> \<le> tx"
  unfolding xdisplace_def by (rule capped_le [OF capDist_pos abs_le_capDist(1)])

lemma ydisplace_le: "0 \<le> ty \<Longrightarrow> \<bar>ydisplace dx dy ty\<bar> \<le> ty"
  unfolding ydisplace_def by (rule capped_le [OF capDist_pos abs_le_capDist(2)])

lemma ls_simps:
  "ls_C (C, tx, ty, cF, itCount, converged) = C"
  "ls_tx (C, tx, ty, cF, itCount, converged) = tx"
  "ls_ty (C, tx, ty, cF, itCount, converged) = ty"
  "ls_cF (C, tx, ty, cF, itCount, converged) = cF"
  "ls_itCount (C, tx, ty, cF, itCount, converged) = itCount"
  "ls_converged (C, tx, ty, cF, itCount, converged) = converged"
  by (simp_all add: ls_C_def ls_tx_def ls_ty_def ls_cF_def ls_itCount_def ls_converged_def)

lemma capping_fold:
  assumes "j \<le> length (m_x C)" "length (m_y C) = length (m_x C)"
  shows "fold (capping_node conf disp tx ty) [0..<j] (c, C) =
     (c \<and> (\<forall>v<j. \<not> exceeds conf disp tx ty v),
      C\<lparr> m_x := map (\<lambda>v. m_x C ! v + xdisplace (fst disp ! v) (snd disp ! v) tx) [0..<j]
                   @ drop j (m_x C),
         m_y := map (\<lambda>v. m_y C ! v + ydisplace (fst disp ! v) (snd disp ! v) ty) [0..<j]
                   @ drop j (m_y C) \<rparr>)"
  using assms
proof (induction j)
  case 0
  then show ?case by simp
next
  case (Suc j)
  then have j: "j < length (m_x C)" "j < length (m_y C)" by simp_all
  have upd: "(map f [0..<j] @ drop j xs)[j := a] = map f [0..<j] @ a # drop (Suc j) xs"
    if "j < length xs" for f :: "nat \<Rightarrow> real" and xs a
    using that by (simp add: list_update_append Cons_nth_drop_Suc [symmetric])
  have nth: "(map f [0..<j] @ drop j xs) ! j = xs ! j"
    if "j < length xs" for f :: "nat \<Rightarrow> real" and xs
    using that by (simp add: nth_append)
  have all: "(\<forall>v<Suc j. P v) = ((\<forall>v<j. P v) \<and> P j)" for P
    by (auto simp: less_Suc_eq)
  have IH: "fold (capping_node conf disp tx ty) [0..<j] (c, C) =
     (c \<and> (\<forall>v<j. \<not> exceeds conf disp tx ty v),
      C\<lparr> m_x := map (\<lambda>v. m_x C ! v + xdisplace (fst disp ! v) (snd disp ! v) tx) [0..<j]
                   @ drop j (m_x C),
         m_y := map (\<lambda>v. m_y C ! v + ydisplace (fst disp ! v) (snd disp ! v) ty) [0..<j]
                   @ drop j (m_y C) \<rparr>)"
    using Suc by simp
  have "fold (capping_node conf disp tx ty) [0..<Suc j] (c, C)
      = capping_node conf disp tx ty j (fold (capping_node conf disp tx ty) [0..<j] (c, C))"
    by simp
  also have "\<dots> = (c \<and> (\<forall>v<Suc j. \<not> exceeds conf disp tx ty v),
      C\<lparr> m_x := map (\<lambda>v. m_x C ! v + xdisplace (fst disp ! v) (snd disp ! v) tx) [0..<Suc j]
                   @ drop (Suc j) (m_x C),
         m_y := map (\<lambda>v. m_y C ! v + ydisplace (fst disp ! v) (snd disp ! v) ty) [0..<Suc j]
                   @ drop (Suc j) (m_y C) \<rparr>)"
    unfolding IH using j
    by (simp add: capping_node_def Let_def exceeds_def upd nth all)
  finally show ?case .
qed

lemma capping_result:
  assumes "length (m_x C) = m_numNodes C" "length (m_y C) = m_numNodes C"
  shows "capping conf disp tx ty (c, C) =
     (c \<and> (\<forall>v<m_numNodes C. \<not> exceeds conf disp tx ty v),
      C\<lparr> m_x := map (\<lambda>v. m_x C ! v + xdisplace (fst disp ! v) (snd disp ! v) tx) [0..<m_numNodes C],
         m_y := map (\<lambda>v. m_y C ! v + ydisplace (fst disp ! v) (snd disp ! v) ty) [0..<m_numNodes C] \<rparr>)"
  unfolding capping_def using capping_fold [of "m_numNodes C" C conf disp tx ty c] assms
  by simp

lemma mainStep_body_C:
  assumes "length (m_x (ls_C s)) = m_numNodes (ls_C s)" "length (m_y (ls_C s)) = m_numNodes (ls_C s)"
  shows "ls_C (mainStep_body conf s) =
     (ls_C s)\<lparr> m_x := map (\<lambda>v. m_x (ls_C s) ! v +
                   xdisplace (fst (disp_of conf (ls_C s)) ! v) (snd (disp_of conf (ls_C s)) ! v) (ls_tx s))
                 [0..<m_numNodes (ls_C s)],
               m_y := map (\<lambda>v. m_y (ls_C s) ! v +
                   ydisplace (fst (disp_of conf (ls_C s)) ! v) (snd (disp_of conf (ls_C s)) ! v) (ls_ty s))
                 [0..<m_numNodes (ls_C s)] \<rparr>"
  by (simp add: mainStep_body_def Let_def capping_result [OF assms] disp_of_def ls_simps)

lemma mainStep_body_temps:
  "(ls_tx (mainStep_body conf s), ls_ty (mainStep_body conf s), ls_cF (mainStep_body conf s))
     = cool conf (ls_tx s, ls_ty s, ls_cF s)"
  by (simp add: mainStep_body_def Let_def ls_simps)

lemma cool_nonneg:
  assumes "0 \<le> m_txNull conf" "0 \<le> m_tyNull conf"
    and "0 \<le> m_coolFactor_x conf" "0 \<le> m_coolFactor_y conf"
    and "0 \<le> tx" "0 \<le> ty" "1 \<le> cF"
  shows "0 \<le> fst (cool conf (tx, ty, cF)) \<and> 0 \<le> fst (snd (cool conf (tx, ty, cF)))
       \<and> 1 \<le> snd (snd (cool conf (tx, ty, cF)))"
proof (cases "m_coolingFunction conf")
  case Factor
  then show ?thesis using assms by (simp add: cool_def)
next
  case Logarithmic
  have "0 \<le> mylog2 cF" using assms(7) by (simp add: mylog2_def)
  then show ?thesis using assms Logarithmic by (simp add: cool_def Let_def)
qed

lemma loop_inv_body:
  assumes "0 \<le> m_txNull conf" "0 \<le> m_tyNull conf"
    and "0 \<le> m_coolFactor_x conf" "0 \<le> m_coolFactor_y conf"
    and "loop_inv n s"
  shows "loop_inv n (mainStep_body conf s)"
proof -
  have l: "length (m_x (ls_C s)) = m_numNodes (ls_C s)" "length (m_y (ls_C s)) = m_numNodes (ls_C s)"
    using assms(5) by (simp_all add: loop_inv_def)
  have c: "m_numNodes (ls_C (mainStep_body conf s)) = n
      \<and> length (m_x (ls_C (mainStep_body conf s))) = n
      \<and> length (m_y (ls_C (mainStep_body conf s))) = n"
    unfolding mainStep_body_C [OF l] using assms(5) by (simp add: loop_inv_def)
  have "0 \<le> ls_tx s" "0 \<le> ls_ty s" "1 \<le> ls_cF s" using assms(5) by (simp_all add: loop_inv_def)
  from cool_nonneg [OF assms(1-4) this]
  have "0 \<le> ls_tx (mainStep_body conf s) \<and> 0 \<le> ls_ty (mainStep_body conf s)
      \<and> 1 \<le> ls_cF (mainStep_body conf s)"
    using mainStep_body_temps [of conf s, symmetric] by simp
  with c show ?thesis by (simp add: loop_inv_def)
qed

lemma loop_inv_iter:
  assumes "0 \<le> m_txNull conf" "0 \<le> m_tyNull conf"
    and "0 \<le> m_coolFactor_x conf" "0 \<le> m_coolFactor_y conf"
    and "length (m_x C) = m_numNodes C" "length (m_y C) = m_numNodes C"
  shows "loop_inv (m_numNodes C) ((mainStep_body conf ^^ j) (mainStep_init conf C))"
proof (induction j)
  case 0
  show ?case using assms
    by (simp add: loop_inv_def mainStep_init_def ls_simps)
next
  case (Suc j)
  then show ?case using loop_inv_body [OF assms(1-4)] by simp
qed

text \<open>
  Claim C9. Let \<open>s\<close> be the loop state of \<open>mainStep\<close> after any number \<open>j\<close> of
  iterations (with non-negative initial temperatures and cooling factors, and an ideal
  edge length other than zero, by which the attractive pass divides), and \<open>v\<close> a
  node. In the next iteration the displacement applied to \<open>v\<close> is
  \<open>disp[v] / dist * min dist temperature\<close> on each axis, where \<open>dist\<close> is at least
  \<open>|disp_x[v]|\<close> and \<open>|disp_y[v]|\<close>; its absolute value is at most \<open>tx\<close> on the x axis
  and at most \<open>ty\<close> on the y axis.
\<close>

theorem displacement_capped:
  assumes "0 \<le> m_txNull conf" "0 \<le> m_tyNull conf"
    and "0 \<le> m_coolFactor_x conf" "0 \<le> m_coolFactor_y conf"
    and "length (m_x C) = m_numNodes C" "length (m_y C) = m_numNodes C"
    and "s = (mainStep_body conf ^^ j) (mainStep_init conf C)"
    and "v < m_numNodes C"
    and "dx = fst (attractive conf (ls_C s) (repulsive conf (ls_C s))) ! v"
    and "dy = snd (attractive conf (ls_C s) (repulsive conf (ls_C s))) ! v"
    and "m_idealEdgeLength conf \<noteq> 0"
  shows "m_x (ls_C (mainStep_body conf s)) ! v = m_x (ls_C s) ! v + dx / capDist dx dy * min (capDist dx dy) (ls_tx s)
       \<and> m_y (ls_C (mainStep_body conf s)) ! v = m_y (ls_C s) ! v + dy / capDist dx dy * min (capDist dx dy) (ls_ty s)
       \<and> \<bar>dx\<bar> \<le> capDist dx dy \<and> \<bar>dy\<bar> \<le> capDist dx dy
       \<and> \<bar>dx / capDist dx dy * min (capDist dx dy) (ls_tx s)\<bar> \<le> ls_tx s
       \<and> \<bar>dy / capDist dx dy * min (capDist dx dy) (ls_ty s)\<bar> \<le> ls_ty s"
proof -
  have inv: "loop_inv (m_numNodes C) s"
    unfolding assms(7) by (rule loop_inv_iter [OF assms(1-6)])
  then have l: "length (m_x (ls_C s)) = m_numNodes (ls_C s)" "length (m_y (ls_C s)) = m_numNodes (ls_C s)"
    and n: "m_numNodes (ls_C s) = m_numNodes C" and t: "0 \<le> ls_tx s" "0 \<le> ls_ty s"
    by (simp_all add: loop_inv_def)
  have x: "m_x (ls_C (mainStep_body conf s)) ! v = m_x (ls_C s) ! v + xdisplace dx dy (ls_tx s)"
    unfolding mainStep_body_C [OF l] using assms(8) n by (simp add: disp_of_def assms(9,10))
  have y: "m_y (ls_C (mainStep_body conf s)) ! v = m_y (ls_C s) ! v + ydisplace dx dy (ls_ty s)"
    unfolding mainStep_body_C [OF l] using assms(8) n by (simp add: disp_of_def assms(9,10))
  show ?thesis
    using x y xdisplace_le [OF t(1), of dx dy] ydisplace_le [OF t(2), of dx dy]
      abs_le_capDist(1) [of dx dy] abs_le_capDist(2) [of dy dx]
    by (simp add: xdisplace_def ydisplace_def)
qed

theorem displacement_capped_witness:
  "m_idealEdgeLength pair_solver = 1
   \<and> 0 \<le> m_txNull pair_solver \<and> 0 \<le> m_tyNull pair_solver
   \<and> 0 \<le> m_coolFactor_x pair_solver \<and> 0 \<le> m_coolFactor_y pair_solver
   \<and> length (m_x (pair_component 0 0 1 0)) = m_numNodes (pair_component 0 0 1 0)
   \<and> length (m_y (pair_component 0 0 1 0)) = m_numNodes (pair_component 0 0 1 0)
   \<and> 0 < m_numNodes (pair_component 0 0 1 0)
   \<and> \<bar>m_x (ls_C (mainStep_body pair_solver
            ((mainStep_body pair_solver ^^ 3) (mainStep_init pair_solver (pair_component 0 0 1 0))))) ! 0
       - m_x (ls_C ((mainStep_body pair_solver ^^ 3)
            (mainStep_init pair_solver (pair_component 0 0 1 0)))) ! 0\<bar>
      \<le> ls_tx ((mainStep_body pair_solver ^^ 3) (mainStep_init pair_solver (pair_component 0 0 1 0)))"
proof -
  have h: "0 \<le> m_txNull pair_solver" "0 \<le> m_tyNull pair_solver"
    "0 \<le> m_coolFactor_x pair_solver" "0 \<le> m_coolFactor_y pair_solver"
    "length (m_x (pair_component 0 0 1 0)) = m_numNodes (pair_component 0 0 1 0)"
    "length (m_y (pair_component 0 0 1 0)) = m_numNodes (pair_component 0 0 1 0)"
    by (simp_all add: pair_solver_def SpringEmbedderFRExact_ctor_def pair_component_def)
  have v: "0 < m_numNodes (pair_component 0 0 1 0)"
    by (simp add: pair_component_def)
  have k: "m_idealEdgeLength pair_solver = 1"
    by (simp add: pair_solver_def SpringEmbedderFRExact_ctor_def)
  then have k0: "m_idealEdgeLength pair_solver \<noteq> 0" by simp
  show ?thesis
    using displacement_capped [OF h refl v refl refl k0, of 3] h v k
    by simp
qed

section \<open>The orchestrator\<close>

lemma single_initCC:
  "initCC (clearAllBends single_attributes)
     ((ArrayGraph_ctor (clearAllBends single_attributes) 1 connected_index)\<lparr> ag_useNodeWeight := False \<rparr>) 0
   = single_component"
  by (simp add: initCC_def ArrayGraph_ctor_def connected_index_def single_attributes_def single_component_def
        initCC_node_def initCC_edges_def Let_def clearAllBends_def)

lemma initCC_single:
  assumes "m_nodesInCC component ! i = [v]"
  shows "m_numNodes (initCC AG component i) = 1"
    and "m_x (initCC AG component i) = [ga_x AG v]"
    and "m_y (initCC AG component i) = [ga_y AG v]"
    and "m_orig (initCC AG component i) = [v]"
  using assms by (simp_all add: initCC_def Let_def initCC_node_def)

lemma call_writeback_node_bends:
  "ga_bends (fst (call_writeback_node C v st)) = ga_bends (fst st)"
  by (cases st) (simp add: call_writeback_node_def Let_def)

lemma call_writeback_bends:
  assumes "call_writeback conf C AG = Some (AG', box)"
  shows "ga_bends AG' = ga_bends AG"
proof -
  let ?st = "fold (call_writeback_node C) [0..<m_numNodes C]
               (AG, m_x C ! 0, m_x C ! 0, m_y C ! 0, m_y C ! 0)"
  have a: "ga_bends (fst ?st) = ga_bends AG"
    by (rule fold_invariant [where Q = "\<lambda>x. True"]) (simp_all add: call_writeback_node_bends)
  obtain A minX maxX minY maxY where st: "?st = (A, minX, maxX, minY, maxY)"
    by (cases ?st) auto
  have b: "ga_bends (fold (call_shift_node C mx my) vs A) = ga_bends A" for mx my vs
    by (rule fold_invariant [where Q = "\<lambda>x. True"]) (simp_all add: call_shift_node_def Let_def)
  show ?thesis
    using assms a b unfolding call_writeback_def st
    by (auto simp: Let_def st split: if_splits)
qed

lemma call_cc_bends:
  assumes "call_cc b i (conf, C, AG, boxes) = Some (conf', C', AG', boxes')"
  shows "ga_bends AG' = ga_bends AG"
  using assms call_writeback_bends
  by (fastforce simp: call_cc_def split: option.splits prod.splits)

lemma call_loop_bends:
  assumes "call_loop b is (conf, C, AG, boxes) = Some (conf', C', AG', boxes')"
  shows "ga_bends AG' = ga_bends AG"
  using assms
proof (induction "is" arbitrary: conf C AG boxes)
  case Nil
  then show ?case by simp
next
  case (Cons i "is")
  from Cons.prems obtain st where st: "call_cc b i (conf, C, AG, boxes) = Some st"
    and rest: "call_loop b is st = Some (conf', C', AG', boxes')"
    by (auto split: option.splits)
  obtain conf1 C1 AG1 boxes1 where s1: "st = (conf1, C1, AG1, boxes1)" by (cases st) auto
  have "ga_bends AG1 = ga_bends AG" using call_cc_bends st s1 by blast
  moreover have "ga_bends AG' = ga_bends AG1" using Cons.IH rest s1 by blast
  ultimately show ?case by simp
qed

lemma call_offsets_bends: "ga_bends (call_offsets C offset AG) = ga_bends AG"
proof -
  have inner: "ga_bends (fold (call_offset_node dx dy) vs A) = ga_bends A" for dx dy vs A
    by (rule fold_invariant [where Q = "\<lambda>x. True"]) (simp_all add: call_offset_node_def Let_def)
  show ?thesis unfolding call_offsets_def
    by (rule fold_invariant [where Q = "\<lambda>x. True"]) (simp_all add: inner)
qed

lemma single_call:
  "call \<lparr> haveSSE3 = True, sse3_extensions = True, use_ksquare = False \<rparr> 1 connected_index
        no_offsets (SpringEmbedderFRExact_ctor 1 20) single_attributes
   = Some (single_attributes\<lparr> ga_x := (\<lambda>v. 5)(0 := 30), ga_y := (\<lambda>v. 7)(0 := 30), ga_bends := (\<lambda>e. []) \<rparr>)"
proof -
  let ?b = "\<lparr> haveSSE3 = True, sse3_extensions = True, use_ksquare = False \<rparr>"
  let ?c = "SpringEmbedderFRExact_ctor 1 20"
  let ?A = "clearAllBends single_attributes"
  let ?C = "(ArrayGraph_ctor ?A 1 connected_index)\<lparr> ag_useNodeWeight := False \<rparr>"
  have lay: "call_layout ?b ?c single_component = Some (?c, single_component)"
    by (simp add: call_layout_def single_component_def)
  have wb: "call_writeback ?c single_component ?A
      = Some (?A\<lparr> ga_x := (\<lambda>v. 5)(0 := 30), ga_y := (\<lambda>v. 7)(0 := 30) \<rparr>, (40, 40))"
    by (simp add: call_writeback_def call_writeback_node_def call_shift_node_def Let_def
          single_component_def single_attributes_def clearAllBends_def SpringEmbedderFRExact_ctor_def)
  have cc: "call_cc ?b 0 (?c, ?C, ?A, [(0, 0)])
      = Some (?c, single_component, ?A\<lparr> ga_x := (\<lambda>v. 5)(0 := 30), ga_y := (\<lambda>v. 7)(0 := 30) \<rparr>, [(40, 40)])"
    unfolding call_cc_def prod.case single_initCC lay option.case wb by simp
  have n: "m_numCC ?C = 1" "m_useNodeWeight ?c = False" "nodes (constGraph single_attributes) \<noteq> []"
    by (simp_all add: ArrayGraph_ctor_def connected_index_def SpringEmbedderFRExact_ctor_def single_attributes_def)
  have off: "call_offsets single_component [(0, 0)] A = A\<lparr> ga_x := (ga_x A)(0 := ga_x A 0), ga_y := (ga_y A)(0 := ga_y A 0) \<rparr>" for A
    by (simp add: call_offsets_def call_offset_node_def single_component_def Let_def)
  have l: "[0..<1] = [0]" "replicate 1 x = [x]" for x :: "real \<times> real"
    by simp_all
  have loop: "call_loop ?b [0..<m_numCC ?C] (?c, ?C, ?A, replicate (m_numCC ?C) (0, 0))
      = Some (?c, single_component, ?A\<lparr> ga_x := (\<lambda>v. 5)(0 := 30), ga_y := (\<lambda>v. 7)(0 := 30) \<rparr>, [(40, 40)])"
    by (simp only: n l call_loop.simps cc option.case)
  have g: "nodes (constGraph single_attributes) = [] \<longleftrightarrow> False"
    using n(3) by simp
  have "call ?b 1 connected_index no_offsets ?c single_attributes
      = Some (call_offsets single_component [(0, 0)]
           (?A\<lparr> ga_x := (\<lambda>v. 5)(0 := 30), ga_y := (\<lambda>v. 7)(0 := 30) \<rparr>))"
    by (simp only: call_def Let_def g if_False n(2) loop option.case prod.case list.map
          no_offsets_def)
  then show ?thesis
    by (simp add: off clearAllBends_def single_attributes_def)
qed

text \<open>
  Claim C1, as amended. For a component of exactly one node \<open>v\<close>, \<open>call\<close> invokes
  neither \<open>initialize\<close> nor the engine: the solver and the component \<open>initCC\<close> built are
  returned unchanged, and the coordinates that are written back are the coordinates the
  node had in the attribute store, not a rescaled output of the initializer.
\<close>

theorem single_node_component:
  assumes "m_nodesInCC component ! i = [v]"
  shows "call_layout b conf (initCC AG component i) = Some (conf, initCC AG component i)
       \<and> m_orig (initCC AG component i) = [v]
       \<and> m_x (initCC AG component i) = [ga_x AG v]
       \<and> m_y (initCC AG component i) = [ga_y AG v]"
  using initCC_single [OF assms, of AG] by (simp add: call_layout_def)

theorem single_node_component_witness:
  "m_nodesInCC (ArrayGraph_ctor single_attributes 1 connected_index) ! 0 = [0]
   \<and> call_layout \<lparr> haveSSE3 = True, sse3_extensions = True, use_ksquare = False \<rparr>
        (SpringEmbedderFRExact_ctor 1 20)
        (initCC single_attributes (ArrayGraph_ctor single_attributes 1 connected_index) 0)
       = Some (SpringEmbedderFRExact_ctor 1 20,
               initCC single_attributes (ArrayGraph_ctor single_attributes 1 connected_index) 0)
   \<and> m_x (initCC single_attributes (ArrayGraph_ctor single_attributes 1 connected_index) 0) = [5]
   \<and> m_y (initCC single_attributes (ArrayGraph_ctor single_attributes 1 connected_index) 0) = [7]"
proof -
  have h: "m_nodesInCC (ArrayGraph_ctor single_attributes 1 connected_index) ! 0 = [0]"
    by (simp add: ArrayGraph_ctor_def connected_index_def single_attributes_def)
  have "ga_x single_attributes 0 = 5" "ga_y single_attributes 0 = 7"
    by (simp_all add: single_attributes_def)
  then show ?thesis
    using h single_node_component [OF h, of "\<lparr> haveSSE3 = True, sse3_extensions = True, use_ksquare = False \<rparr>"
        "SpringEmbedderFRExact_ctor 1 20" single_attributes]
    by simp
qed

text \<open>
  Claim C1 as stated fails: for the single node at \<open>(5, 7)\<close> the component keeps
  \<open>(5, 7)\<close>, while the output of \<open>initialize\<close> on it would be \<open>(0, 0)\<close>; and the
  position in the attribute store after the whole call, \<open>(30, 30)\<close>, comes from the node
  size and the component separation.
\<close>

theorem single_node_counterexample:
  "call_layout \<lparr> haveSSE3 = False, sse3_extensions = False, use_ksquare = False \<rparr>
       (SpringEmbedderFRExact_ctor 1 20) single_component
     = Some (SpringEmbedderFRExact_ctor 1 20, single_component)
   \<and> m_x single_component = [5] \<and> m_y single_component = [7]
   \<and> initialize (SpringEmbedderFRExact_ctor 1 20) single_component
     = Some ((SpringEmbedderFRExact_ctor 1 20)\<lparr> m_txNull := 1 / 8, m_tyNull := 1 / 8 \<rparr>,
             single_component\<lparr> m_x := [0], m_y := [0] \<rparr>)
   \<and> m_x (snd (the (call_layout \<lparr> haveSSE3 = False, sse3_extensions = False, use_ksquare = False \<rparr>
           (SpringEmbedderFRExact_ctor 1 20) single_component)))
       \<noteq> m_x (snd (the (initialize (SpringEmbedderFRExact_ctor 1 20) single_component)))"
  by (simp add: call_layout_def single_component_def initialize_def Let_def
        SpringEmbedderFRExact_ctor_def updateMin_def updateMax_def)

lemma call_bends:
  assumes "nodes (constGraph AG) \<noteq> []"
    and "call b numCC ccIndex packer conf AG = Some AG'"
  shows "ga_bends AG' = (\<lambda>e. [])
       \<and> call b numCC ccIndex packer conf (clearAllBends AG) = Some AG'"
proof -
  have idem: "clearAllBends (clearAllBends AG) = clearAllBends AG"
    by (simp add: clearAllBends_def)
  have g: "constGraph (clearAllBends AG) = constGraph AG"
    by (simp add: clearAllBends_def)
  have same: "call b numCC ccIndex packer conf (clearAllBends AG) = call b numCC ccIndex packer conf AG"
    using assms(1) by (simp add: call_def Let_def idem g)
  let ?C = "(ArrayGraph_ctor (clearAllBends AG) numCC ccIndex)\<lparr> ag_useNodeWeight := m_useNodeWeight conf \<rparr>"
  from assms obtain conf' C' A boxes where
    loop: "call_loop b [0..<m_numCC ?C] (conf, ?C, clearAllBends AG, replicate (m_numCC ?C) (0, 0))
             = Some (conf', C', A, boxes)"
    and res: "AG' = call_offsets C' (packer boxes (m_pageRatio conf)) A"
    by (auto simp: call_def Let_def split: option.splits)
  have "ga_bends A = ga_bends (clearAllBends AG)" by (rule call_loop_bends [OF loop])
  then have "ga_bends AG' = (\<lambda>e. [])"
    by (simp add: res call_offsets_bends clearAllBends_def)
  then show ?thesis using same assms(2) by simp
qed

section \<open>The vectorized repulsive pass\<close>

lemma repulsive_inner_eq:
  "repulsive_inner C v u d =
     (if u = v then d else (fst d + rep_x C v u, snd d + rep_y C v u))"
  by (simp add: repulsive_inner_def rep_x_def rep_y_def Let_def)

lemma fold_repulsive_inner:
  "fold (repulsive_inner C v) [0..<m] d =
     (fst d + sum (rep_x C v) ({0..<m} - {v}), snd d + sum (rep_y C v) ({0..<m} - {v}))"
proof (induction m)
  case 0
  then show ?case by simp
next
  case (Suc m)
  have s: "{0..<Suc m} - {v} = (if m = v then {0..<m} - {v} else insert m ({0..<m} - {v}))"
    by auto
  have "fold (repulsive_inner C v) [0..<Suc m] d
      = repulsive_inner C v m (fold (repulsive_inner C v) [0..<m] d)"
    by simp
  also have "\<dots> = repulsive_inner C v m
      (fst d + sum (rep_x C v) ({0..<m} - {v}), snd d + sum (rep_y C v) ({0..<m} - {v}))"
    by (simp only: Suc)
  also have "\<dots> = (fst d + sum (rep_x C v) ({0..<Suc m} - {v}),
                     snd d + sum (rep_y C v) ({0..<Suc m} - {v}))"
    unfolding s repulsive_inner_eq by simp
  finally show ?case .
qed

lemma sum_skip:
  fixes f :: "nat \<Rightarrow> real"
  assumes "v < n"
  shows "sum f ({0..<n} - {v}) = sum f {0..<v} + sum f {Suc v..<n}"
proof -
  have "{0..<n} - {v} = {0..<v} \<union> {Suc v..<n}" using assms by auto
  moreover have "{0..<v} \<inter> {Suc v..<n} = {}" by auto
  ultimately show ?thesis by (simp add: sum.union_disjoint)
qed

lemma pd_end_stop: "\<not> Suc u < bound \<Longrightarrow> pd_end u bound = u"
  by (simp add: pd_end_def)

lemma pd_end_step: "Suc u < bound \<Longrightarrow> pd_end (Suc (Suc u)) bound = pd_end u bound"
proof -
  assume "Suc u < bound"
  then obtain d where d: "bound = Suc (Suc u) + d"
    by (metis Suc_leI le_Suc_ex)
  show ?thesis by (simp add: pd_end_def d)
qed

lemma pd_end_ge: "u \<le> pd_end u bound"
  by (simp add: pd_end_def)

lemma loop_pd_fst: "fst (loop_pd f u bound acc) = pd_end u bound"
proof (induction f u bound acc rule: loop_pd.induct)
  case (1 f u bound acc)
  show ?case
  proof (cases "u + 1 < bound")
    case True
    then show ?thesis using 1 by (simp add: loop_pd_step pd_end_step)
  next
    case False
    then show ?thesis by (simp add: loop_pd_stop pd_end_stop)
  qed
qed

lemma compute_pd_tot:
  assumes "\<not> use_ksquare b"
  shows "tot (fst (compute_pd b conf C v u acc)) = tot (fst acc) + rep_x C v u + rep_x C v (u + 1)"
    and "tot (snd (compute_pd b conf C v u acc)) = tot (snd acc) + rep_y C v u + rep_y C v (u + 1)"
  using assms
  by (simp_all add: compute_pd_def Let_def tot_def rep_x_def rep_y_def repDistSquare_def
        mm_set1_pd_def mm_load_pd_def mm_sub_pd_def mm_mul_pd_def mm_add_pd_def mm_max_pd_def
        mm_div_pd_def)

lemma compute_sd_tot:
  assumes "\<not> use_ksquare b"
  shows "tot (fst (compute_sd b conf C v u acc)) = tot (fst acc) + rep_x C v u"
    and "tot (snd (compute_sd b conf C v u acc)) = tot (snd acc) + rep_y C v u"
  using assms
  by (simp_all add: compute_sd_def Let_def tot_def rep_x_def rep_y_def repDistSquare_def
        mm_set1_pd_def mm_load_sd_def mm_sub_sd_def mm_mul_sd_def mm_add_sd_def mm_max_sd_def
        mm_div_sd_def)

lemma loop_pd_tot:
  assumes "\<not> use_ksquare b"
  shows "tot (fst (snd (loop_pd (compute_pd b conf C v) u bound acc)))
           = tot (fst acc) + sum (rep_x C v) {u..<pd_end u bound}
       \<and> tot (snd (snd (loop_pd (compute_pd b conf C v) u bound acc)))
           = tot (snd acc) + sum (rep_y C v) {u..<pd_end u bound}"
proof (induction "compute_pd b conf C v" u bound acc rule: loop_pd.induct)
  case (1 u bound acc)
  show ?case
  proof (cases "u + 1 < bound")
    case True
    have T: "Suc u < bound" using True by simp
    have r: "{u..<pd_end u bound} = insert u (insert (Suc u) {Suc (Suc u)..<pd_end u bound})"
      using pd_end_ge [of "Suc (Suc u)" bound] pd_end_step [OF T] by auto
    have "sum g {u..<pd_end u bound} = g u + g (Suc u) + sum g {Suc (Suc u)..<pd_end u bound}"
      for g :: "nat \<Rightarrow> real"
      unfolding r by simp
    then show ?thesis
      using 1 [OF True] True
      by (simp add: loop_pd_step pd_end_step [OF T] compute_pd_tot [OF assms])
  next
    case False
    then show ?thesis by (simp add: loop_pd_stop pd_end_stop)
  qed
qed

lemma tail_sum:
  fixes f :: "nat \<Rightarrow> real"
  shows "sum f {a..<pd_end a n} + (if pd_end a n < n then f (pd_end a n) else 0) = sum f {a..<n}"
proof (cases "n \<le> a")
  case True
  then show ?thesis by (simp add: pd_end_def)
next
  case False
  then obtain d where d: "n = a + d" using le_Suc_ex by (metis nat_le_linear)
  show ?thesis
  proof (cases "even d")
    case True
    then have "pd_end a n = n" by (simp add: pd_end_def d)
    then show ?thesis by simp
  next
    case False
    then obtain q where q: "d = 2 * q + 1" by (auto elim: oddE)
    have e: "pd_end a n = a + 2 * q" by (simp add: pd_end_def d q)
    have l: "a + 2 * q < n" by (simp add: d q)
    have "{a..<n} = insert (a + 2 * q) {a..<a + 2 * q}" by (auto simp: d q)
    then have "sum f {a..<n} = sum f {a..<a + 2 * q} + f (a + 2 * q)" by simp
    then show ?thesis unfolding e using l by simp
  qed
qed

lemma repulsive_node_sse3_eq:
  assumes "\<not> use_ksquare b" "v < m_numNodes C"
  shows "repulsive_node_sse3 b conf C v = repulsive_node conf C v"
proof -
  define n where "n = m_numNodes C"
  define f where "f = compute_pd b conf C v"
  define z where "z = (mm_setzero_pd, mm_setzero_pd)"
  define r1 where "r1 = loop_pd f 0 v z"
  define u where "u = (if fst r1 = v then fst r1 + 1 else fst r1)"
  define a1 where "a1 = (if u < n then compute_sd b conf C v u (snd r1) else snd r1)"
  define r2 where "r2 = loop_pd f (fst r1 + 2) n a1"
  define a2 where "a2 = (if fst r2 < n then compute_sd b conf C v (fst r2) (snd r2) else snd r2)"
  have u1: "fst r1 = pd_end 0 v" by (simp add: r1_def loop_pd_fst)
  have t1: "tot (fst (snd r1)) = sum (rep_x C v) {0..<pd_end 0 v}"
    "tot (snd (snd r1)) = sum (rep_y C v) {0..<pd_end 0 v}"
    using loop_pd_tot [OF assms(1), of conf C v 0 v z]
    by (simp_all add: r1_def f_def z_def tot_def mm_setzero_pd_def)
  define w where "w = fst r1 + 2"
  have r2w: "r2 = loop_pd f w n a1" by (simp add: r2_def w_def)
  have u2: "fst r2 = pd_end w n" by (simp add: r2w loop_pd_fst)
  have t2: "tot (fst (snd r2)) = tot (fst a1) + sum (rep_x C v) {w..<pd_end w n}"
    "tot (snd (snd r2)) = tot (snd a1) + sum (rep_y C v) {w..<pd_end w n}"
    using loop_pd_tot [OF assms(1), of conf C v w n a1]
    by (simp_all add: r2w f_def)
  have t3: "tot (fst a2) = tot (fst a1) + sum (rep_x C v) {w..<n}"
    "tot (snd a2) = tot (snd a1) + sum (rep_y C v) {w..<n}"
    using tail_sum [of "rep_x C v" w n] tail_sum [of "rep_y C v" w n]
    by (auto simp: a2_def u2 t2 compute_sd_tot [OF assms(1)])
  have vn: "v < n" using assms(2) by (simp add: n_def)
  have mid: "tot (fst a1) + sum (rep_x C v) {w..<n} = sum (rep_x C v) ({0..<n} - {v})
           \<and> tot (snd a1) + sum (rep_y C v) {w..<n} = sum (rep_y C v) ({0..<n} - {v})"
  proof (cases "even v")
    case True
    then have e: "pd_end 0 v = v" by (simp add: pd_end_def)
    have uu: "u = v + 1" by (simp add: u_def u1 e)
    have ww: "w = Suc (Suc v)" by (simp add: w_def u1 e)
    have s: "sum g {Suc v..<n} = (if Suc v < n then g (Suc v) else 0) + sum g {Suc (Suc v)..<n}"
      for g :: "nat \<Rightarrow> real"
      by (simp add: sum.atLeast_Suc_lessThan)
    show ?thesis
      unfolding sum_skip [OF vn] s ww
      by (simp add: a1_def uu t1 e compute_sd_tot [OF assms(1)])
  next
    case False
    then obtain q where q: "v = 2 * q + 1" by (auto elim: oddE)
    have e: "pd_end 0 v = v - 1" by (simp add: pd_end_def q)
    have "v - 1 \<noteq> v" using q by simp
    then have uu: "u = v - 1" unfolding u_def u1 e by simp
    have "{0..<v} = insert (v - 1) {0..<v - 1}" using q by auto
    then have s: "sum g {0..<v} = sum g {0..<v - 1} + g (v - 1)" for g :: "nat \<Rightarrow> real"
      by simp
    have un: "v - Suc 0 < n" using vn by simp
    have ww: "w = Suc v" unfolding w_def u1 e using q by simp
    show ?thesis
      unfolding sum_skip [OF vn] s ww
      by (simp add: a1_def uu t1 e compute_sd_tot [OF assms(1)] un)
  qed
  have sse: "repulsive_node_sse3 b conf C v = (tot (fst a2) * c_rep conf, tot (snd a2) * c_rep conf)"
    unfolding repulsive_node_sse3_def Let_def
    by (simp add: a2_def r2_def a1_def u_def r1_def f_def z_def n_def tot_def
          mm_hadd_pd_def mm_mul_sd_def mm_set1_pd_def)
  have sca: "repulsive_node conf C v
      = (sum (rep_x C v) ({0..<n} - {v}) * c_rep conf, sum (rep_y C v) ({0..<n} - {v}) * c_rep conf)"
    by (simp add: repulsive_node_def Let_def fold_repulsive_inner n_def)
  show ?thesis using mid by (simp add: sse sca t3)
qed

lemma repulsive_sse3_eq:
  assumes "\<not> use_ksquare b"
  shows "repulsive_sse3 b conf C = repulsive conf C"
  by (simp add: repulsive_sse3_def repulsive_def repulsive_node_sse3_eq [OF assms])

section \<open>The vectorized capping pass\<close>

lemma update_two:
  assumes "Suc u < length xs"
  shows "(map f [0..<u] @ drop u xs)[u := f u, Suc u := f (Suc u)]
           = map f [0..<Suc (Suc u)] @ drop (Suc (Suc u)) xs"
proof -
  have d: "drop u xs = xs ! u # xs ! Suc u # drop (Suc (Suc u)) xs"
    using assms by (simp add: Cons_nth_drop_Suc Suc_lessD)
  show ?thesis by (simp add: d list_update_append)
qed

lemma update_one:
  assumes "u < length xs"
  shows "(map f [0..<u] @ drop u xs)[u := f u] = map f [0..<Suc u] @ drop (Suc u) xs"
proof -
  have d: "drop u xs = xs ! u # drop (Suc u) xs"
    using assms by (simp add: Cons_nth_drop_Suc)
  show ?thesis by (simp add: d list_update_append)
qed

lemma capped_nth:
  assumes "u \<le> w" "w < length (m_x C)" "length (m_y C) = length (m_x C)"
  shows "m_x (capped disp tx ty C u) ! w = m_x C ! w" "m_y (capped disp tx ty C u) ! w = m_y C ! w"
  using assms by (simp_all add: capped_def nth_append)

lemma capping_pd_capped:
  assumes "Suc u < length (m_x C)" "length (m_y C) = length (m_x C)"
  shows "capping_pd disp tx ty u (capped disp tx ty C u) = capped disp tx ty C (Suc (Suc u))"
proof -
  have x: "m_x (capped disp tx ty C u) ! u = m_x C ! u"
    "m_x (capped disp tx ty C u) ! Suc u = m_x C ! Suc u"
    "m_y (capped disp tx ty C u) ! u = m_y C ! u"
    "m_y (capped disp tx ty C u) ! Suc u = m_y C ! Suc u"
    using assms by (simp_all add: capped_nth)
  have ux: "(m_x (capped disp tx ty C u))[u := fx u, Suc u := fx (Suc u)]
      = map fx [0..<Suc (Suc u)] @ drop (Suc (Suc u)) (m_x C)"
    if "fx = (\<lambda>v. m_x C ! v + xdisplace (fst disp ! v) (snd disp ! v) tx)" for fx
    unfolding that capped_def using update_two [OF assms(1)] by simp
  have uy: "(m_y (capped disp tx ty C u))[u := fy u, Suc u := fy (Suc u)]
      = map fy [0..<Suc (Suc u)] @ drop (Suc (Suc u)) (m_y C)"
    if "fy = (\<lambda>v. m_y C ! v + ydisplace (fst disp ! v) (snd disp ! v) ty)" for fy
    unfolding that capped_def using update_two [of u "m_y C"] assms by simp
  have "capping_pd disp tx ty u (capped disp tx ty C u)
      = (capped disp tx ty C u)
          \<lparr> m_x := (m_x (capped disp tx ty C u))
               [u := m_x C ! u + xdisplace (fst disp ! u) (snd disp ! u) tx,
                Suc u := m_x C ! Suc u + xdisplace (fst disp ! Suc u) (snd disp ! Suc u) tx],
             m_y := (m_y (capped disp tx ty C u))
               [u := m_y C ! u + ydisplace (fst disp ! u) (snd disp ! u) ty,
                Suc u := m_y C ! Suc u + ydisplace (fst disp ! Suc u) (snd disp ! Suc u) ty] \<rparr>"
    by (simp add: capping_pd_def Let_def x mm_load_pd_def mm_store_pd_def mm_add_pd_def
          mm_mul_pd_def mm_div_pd_def mm_min_pd_def mm_max_pd_def mm_sqrt_pd_def mm_set1_pd_def
          xdisplace_def ydisplace_def capDist_def)
  also have "\<dots> = capped disp tx ty C (Suc (Suc u))"
    unfolding ux [OF refl] uy [OF refl] by (simp add: capped_def)
  finally show ?thesis .
qed

lemma loop_pd_capped:
  assumes "length (m_y C) = length (m_x C)"
  shows "acc = capped disp tx ty C u \<Longrightarrow>
         snd (loop_pd (capping_pd disp tx ty) u (length (m_x C)) acc)
           = capped disp tx ty C (pd_end u (length (m_x C)))"
proof (induction "capping_pd disp tx ty" u "length (m_x C)" acc rule: loop_pd.induct)
  case (1 u acc)
  show ?case
  proof (cases "Suc u < length (m_x C)")
    case True
    have "capping_pd disp tx ty u acc = capped disp tx ty C (u + 2)"
      using capping_pd_capped [OF True assms] 1(2) by simp
    then show ?thesis
      using 1(1) True by (simp add: loop_pd_step pd_end_step)
  next
    case False
    then show ?thesis using 1(2) by (simp add: loop_pd_stop pd_end_stop)
  qed
qed

lemma capping_sse3_eq:
  assumes "length (m_x C) = m_numNodes C" "length (m_y C) = m_numNodes C"
  shows "capping_sse3 disp tx ty C = capped disp tx ty C (m_numNodes C)"
proof -
  define n where "n = m_numNodes C"
  have l: "length (m_y C) = length (m_x C)" "length (m_x C) = n" using assms by (simp_all add: n_def)
  have c0: "C = capped disp tx ty C 0" by (simp add: capped_def)
  have lp: "snd (loop_pd (capping_pd disp tx ty) 0 n C) = capped disp tx ty C (pd_end 0 n)"
    using loop_pd_capped [OF l(1) c0] l(2) by simp
  have nn: "m_numNodes (capped disp tx ty C u) = n" for u by (simp add: capped_def n_def)
  show ?thesis
  proof (cases "even n")
    case True
    then have "pd_end 0 n = n" by (simp add: pd_end_def)
    then show ?thesis
      using True by (simp add: capping_sse3_def n_def [symmetric] lp capping_last_def nn)
  next
    case False
    then obtain q where q: "n = Suc (2 * q)" by (auto elim: oddE)
    define m where "m = 2 * q"
    have S: "n = Suc m" by (simp add: m_def q)
    have e: "pd_end 0 n = m" by (simp add: pd_end_def q m_def)
    have lt: "m < length (m_x C)" "m < length (m_y C)" using l S by simp_all
    have x: "m_x (capped disp tx ty C m) ! m = m_x C ! m"
      "m_y (capped disp tx ty C m) ! m = m_y C ! m"
      using lt l by (simp_all add: capped_nth)
    have ux: "(m_x (capped disp tx ty C m))[m := fx m]
        = map fx [0..<Suc m] @ drop (Suc m) (m_x C)"
      if "fx = (\<lambda>v. m_x C ! v + xdisplace (fst disp ! v) (snd disp ! v) tx)" for fx
      unfolding that capped_def using update_one [OF lt(1)] by simp
    have uy: "(m_y (capped disp tx ty C m))[m := fy m]
        = map fy [0..<Suc m] @ drop (Suc m) (m_y C)"
      if "fy = (\<lambda>v. m_y C ! v + ydisplace (fst disp ! v) (snd disp ! v) ty)" for fy
      unfolding that capped_def using update_one [OF lt(2)] by simp
    have "n mod 2 = 1" unfolding q by presburger
    then have odd: "n mod 2 \<noteq> 0" "n - 1 = m" using S by simp_all
    have "capping_sse3 disp tx ty C = capping_last disp tx ty (capped disp tx ty C m)"
      by (simp add: capping_sse3_def n_def [symmetric] lp e)
    also have "\<dots>
        = (capped disp tx ty C m)
            \<lparr> m_x := (m_x (capped disp tx ty C m))
                 [m := m_x C ! m + xdisplace (fst disp ! m) (snd disp ! m) tx],
               m_y := (m_y (capped disp tx ty C m))
                 [m := m_y C ! m + ydisplace (fst disp ! m) (snd disp ! m) ty] \<rparr>"
      unfolding capping_last_def nn Let_def odd(2) x
      using odd(1) by (simp add: xdisplace_def ydisplace_def capDist_def)
    also have "\<dots> = capped disp tx ty C (Suc m)"
      unfolding ux [OF refl] uy [OF refl] by (simp add: capped_def)
    finally show ?thesis by (simp add: n_def [symmetric] S)
  qed
qed

lemma capping_eq_capped:
  assumes "length (m_x C) = m_numNodes C" "length (m_y C) = m_numNodes C"
  shows "snd (capping conf disp tx ty (c, C)) = capped disp tx ty C (m_numNodes C)"
  using assms by (simp add: capping_result [OF assms] capped_def)

text \<open>
  One iteration of the vectorized loop changes the component, the temperatures and the
  cooling counter exactly as one iteration of the scalar loop does.
\<close>

lemma mainStep_sse3_body_eq:
  assumes "\<not> use_ksquare b"
    and "length (m_x (fs_C s)) = m_numNodes (fs_C s)" "length (m_y (fs_C s)) = m_numNodes (fs_C s)"
    and "ls_C t = fs_C s" "ls_tx t = fs_tx s" "ls_ty t = fs_ty s" "ls_cF t = fs_cF s"
  shows "fs_C (mainStep_sse3_body b conf s) = ls_C (mainStep_body conf t)
       \<and> fs_tx (mainStep_sse3_body b conf s) = ls_tx (mainStep_body conf t)
       \<and> fs_ty (mainStep_sse3_body b conf s) = ls_ty (mainStep_body conf t)
       \<and> fs_cF (mainStep_sse3_body b conf s) = ls_cF (mainStep_body conf t)
       \<and> fs_i (mainStep_sse3_body b conf s) = fs_i s + 1"
proof -
  have l: "length (m_x (ls_C t)) = m_numNodes (ls_C t)" "length (m_y (ls_C t)) = m_numNodes (ls_C t)"
    using assms by simp_all
  have fs: "fs_C (C, r) = C" "fs_tx (C, tx, r') = tx" "fs_ty (C, tx, ty, r'') = ty"
    "fs_cF (C, tx, ty, cF, i) = cF" "fs_i (C, tx, ty, cF, i) = i" for C r tx r' ty r'' cF i
    by (simp_all add: fs_C_def fs_tx_def fs_ty_def fs_cF_def fs_i_def)
  have c: "fs_C (mainStep_sse3_body b conf s)
      = capped (disp_of conf (fs_C s)) (fs_tx s) (fs_ty s) (fs_C s) (m_numNodes (fs_C s))"
    by (simp add: mainStep_sse3_body_def Let_def fs repulsive_sse3_eq [OF assms(1)]
          capping_sse3_eq [OF assms(2,3)] disp_of_def)
  have d: "ls_C (mainStep_body conf t)
      = capped (disp_of conf (fs_C s)) (fs_tx s) (fs_ty s) (fs_C s) (m_numNodes (fs_C s))"
    unfolding mainStep_body_C [OF l] by (simp add: assms(2-7) capped_def)
  have e: "(fs_tx (mainStep_sse3_body b conf s), fs_ty (mainStep_sse3_body b conf s),
            fs_cF (mainStep_sse3_body b conf s)) = cool conf (fs_tx s, fs_ty s, fs_cF s)"
    by (simp add: mainStep_sse3_body_def Let_def fs)
  have i: "fs_i (mainStep_sse3_body b conf s) = fs_i s + 1"
    by (simp add: mainStep_sse3_body_def Let_def fs)
  have "(fs_tx (mainStep_sse3_body b conf s), fs_ty (mainStep_sse3_body b conf s),
         fs_cF (mainStep_sse3_body b conf s))
      = (ls_tx (mainStep_body conf t), ls_ty (mainStep_body conf t), ls_cF (mainStep_body conf t))"
    unfolding e mainStep_body_temps by (simp add: assms(4-7))
  then show ?thesis
    using c d i by simp
qed

section \<open>Iteration counts, and a component of two coincident nodes\<close>

lemma fs_simps:
  "fs_C (C, tx, ty, cF, i) = C"
  "fs_tx (C, tx, ty, cF, i) = tx"
  "fs_ty (C, tx, ty, cF, i) = ty"
  "fs_cF (C, tx, ty, cF, i) = cF"
  "fs_i (C, tx, ty, cF, i) = i"
  by (simp_all add: fs_C_def fs_tx_def fs_ty_def fs_cF_def fs_i_def)

lemma mainStep_sse3_body_i: "fs_i (mainStep_sse3_body b conf s) = fs_i s + 1"
  by (simp add: mainStep_sse3_body_def Let_def fs_simps)

lemma mainStep_sse3_for_iterate:
  "mainStep_sse3_for b conf s
     = (mainStep_sse3_body b conf ^^ nat (m_iterations conf + 1 - fs_i s)) s"
proof (induction b conf s rule: mainStep_sse3_for.induct)
  case (1 b conf s)
  show ?case
  proof (cases "fs_i s \<le> m_iterations conf")
    case True
    have n: "nat (m_iterations conf + 1 - fs_i s)
        = Suc (nat (m_iterations conf + 1 - fs_i (mainStep_sse3_body b conf s)))"
      using True by (simp add: mainStep_sse3_body_i)
    show ?thesis
      unfolding mainStep_sse3_for_step [OF True] 1 [OF True] n
      by (simp add: funpow_swap1)
  next
    case False
    then show ?thesis by (simp add: mainStep_sse3_for_done)
  qed
qed

lemma funpow_fs_i: "fs_i ((mainStep_sse3_body b conf ^^ n) s) = fs_i s + int n"
  by (induction n) (simp_all add: mainStep_sse3_body_i)

lemma mainStep_sse3_for_count:
  assumes "0 \<le> m_iterations conf"
  shows "fs_i (mainStep_sse3_for b conf (mainStep_sse3_init conf C)) = m_iterations conf + 1"
  using assms
  by (simp add: mainStep_sse3_for_iterate funpow_fs_i mainStep_sse3_init_def fs_simps)

lemma mainStep_body_itCount: "ls_itCount (mainStep_body conf s) = ls_itCount s + 1"
  by (simp add: mainStep_body_def Let_def ls_simps)

lemma mainStep_body_converged:
  assumes "length (m_x (ls_C s)) = m_numNodes (ls_C s)" "length (m_y (ls_C s)) = m_numNodes (ls_C s)"
  shows "ls_converged (mainStep_body conf s) \<longleftrightarrow>
     (ls_itCount s + 1 > m_iterations conf
      \<or> ((m_checkConvergence conf \<or> ls_converged s)
         \<and> (\<forall>v<m_numNodes (ls_C s). \<not> exceeds conf (disp_of conf (ls_C s)) (ls_tx s) (ls_ty s) v)))"
  by (simp add: mainStep_body_def Let_def ls_simps capping_result [OF assms] disp_of_def)

text \<open>
  The scalar loop with \<open>m_checkConvergence\<close>: if no node exceeds the threshold in the
  first iteration, the loop ends after that iteration.
\<close>

lemma mainStep_one_iteration:
  assumes "m_checkConvergence conf" "m_iterations conf \<noteq> 0"
    and "length (m_x C) = m_numNodes C" "length (m_y C) = m_numNodes C"
    and "\<forall>v<m_numNodes C. \<not> exceeds conf (disp_of conf C) (m_txNull conf) (m_tyNull conf) v"
  shows "mainStep_while conf (mainStep_init conf C) = mainStep_body conf (mainStep_init conf C)"
    and "ls_itCount (mainStep_while conf (mainStep_init conf C)) = 2"
proof -
  let ?s = "mainStep_init conf C"
  have n: "\<not> ls_converged ?s" using assms(2) by (simp add: mainStep_init_def ls_simps)
  have l: "length (m_x (ls_C ?s)) = m_numNodes (ls_C ?s)" "length (m_y (ls_C ?s)) = m_numNodes (ls_C ?s)"
    using assms(3,4) by (simp_all add: mainStep_init_def ls_simps)
  have c: "ls_converged (mainStep_body conf ?s)"
    unfolding mainStep_body_converged [OF l] using assms(1,5)
    by (simp add: mainStep_init_def ls_simps)
  show w: "mainStep_while conf ?s = mainStep_body conf ?s"
    unfolding mainStep_while_step [OF n] by (rule mainStep_while_converged [OF c])
  show "ls_itCount (mainStep_while conf ?s) = 2"
    unfolding w mainStep_body_itCount by (simp add: mainStep_init_def ls_simps)
qed

lemma coincident_repulsive:
  assumes "coincident C"
  shows "repulsive conf C = ([0, 0], [0, 0])"
  using assms
  by (simp add: coincident_def repulsive_def repulsive_node_def repulsive_inner_def Let_def upt_0_2)

lemma coincident_nth:
  assumes "coincident C" "v < 2" "u < 2"
  shows "m_x C ! v = m_x C ! u" "m_y C ! v = m_y C ! u"
proof -
  have "v = 0 \<or> v = 1" "u = 0 \<or> u = 1" using assms(2,3) by auto
  then show "m_x C ! v = m_x C ! u" "m_y C ! v = m_y C ! u"
    using assms(1) by (auto simp: coincident_def)
qed

lemma coincident_attractive_edge:
  assumes "coincident C" "e < m_numEdges C"
  shows "attractive_edge conf C e ([0, 0], [0, 0]) = ([0, 0], [0, 0])"
proof -
  have b: "m_src C ! e < 2" "m_tgt C ! e < 2" using assms by (simp_all add: coincident_def)
  have x: "m_x C ! 0 = m_x C ! 1" "m_y C ! 0 = m_y C ! 1"
    using assms(1) by (simp_all add: coincident_def)
  have "m_src C ! e = 0 \<or> m_src C ! e = 1" "m_tgt C ! e = 0 \<or> m_tgt C ! e = 1"
    using b by auto
  then show ?thesis
    by (elim disjE) (simp_all add: attractive_edge_def Let_def x)
qed

lemma coincident_disp:
  assumes "coincident C"
  shows "disp_of conf C = ([0, 0], [0, 0])"
  unfolding disp_of_def attractive_def coincident_repulsive [OF assms]
  by (rule fold_invariant [where Q = "\<lambda>e. e < m_numEdges C"])
     (simp_all add: coincident_attractive_edge [OF assms])

lemma xdisplace_zero: "xdisplace 0 0 tx = 0" "ydisplace 0 0 ty = 0"
  by (simp_all add: xdisplace_def ydisplace_def)

lemma two_list: "length xs = 2 \<Longrightarrow> [xs ! 0, xs ! Suc 0] = xs"
  by (cases xs; cases "tl xs"; simp)

lemma coincident_body:
  assumes "coincident (ls_C s)"
  shows "ls_C (mainStep_body conf s) = ls_C s"
proof -
  have l: "length (m_x (ls_C s)) = m_numNodes (ls_C s)" "length (m_y (ls_C s)) = m_numNodes (ls_C s)"
    and n: "m_numNodes (ls_C s) = 2"
    and l2: "length (m_x (ls_C s)) = 2" "length (m_y (ls_C s)) = 2"
    using assms by (simp_all add: coincident_def)
  show ?thesis
    unfolding mainStep_body_C [OF l] coincident_disp [OF assms] n
    by (simp add: upt_0_2 xdisplace_zero two_list [OF l2(1)] two_list [OF l2(2)])
qed

lemma coincident_while:
  "coincident (ls_C s) \<Longrightarrow> ls_C (mainStep_while conf s) = ls_C s"
proof (induction conf s rule: mainStep_while.induct)
  case (1 conf s)
  show ?case
  proof (cases "ls_converged s")
    case True
    then show ?thesis by (simp add: mainStep_while_converged)
  next
    case False
    have "ls_C (mainStep_while conf (mainStep_body conf s)) = ls_C (mainStep_body conf s)"
      using 1 False by (simp add: coincident_body)
    then show ?thesis
      unfolding mainStep_while_step [OF False] by (simp add: coincident_body [OF 1(2)])
  qed
qed

lemma coincident_mainStep:
  assumes "coincident C"
  shows "mainStep conf C = C"
  unfolding mainStep_def
  using coincident_while [of "mainStep_init conf C" conf] assms
  by (simp add: mainStep_init_def ls_simps)

lemma coincident_sse3_body:
  assumes "\<not> use_ksquare b" "coincident (fs_C s)"
  shows "fs_C (mainStep_sse3_body b conf s) = fs_C s"
proof -
  have l: "length (m_x (fs_C s)) = m_numNodes (fs_C s)" "length (m_y (fs_C s)) = m_numNodes (fs_C s)"
    using assms(2) by (simp_all add: coincident_def)
  let ?t = "(fs_C s, fs_tx s, fs_ty s, fs_cF s, 0::int, False)"
  have "fs_C (mainStep_sse3_body b conf s) = ls_C (mainStep_body conf ?t)"
    using mainStep_sse3_body_eq [OF assms(1) l, of ?t conf] by (simp add: ls_simps)
  also have "\<dots> = fs_C s"
    using coincident_body [of ?t conf] assms(2) by (simp add: ls_simps)
  finally show ?thesis .
qed

lemma coincident_sse3_iterate:
  assumes "\<not> use_ksquare b" "coincident (fs_C s)"
  shows "fs_C ((mainStep_sse3_body b conf ^^ n) s) = fs_C s"
proof (induction n)
  case 0
  then show ?case by simp
next
  case (Suc n)
  then show ?case
    using coincident_sse3_body [OF assms(1), where s = "(mainStep_sse3_body b conf ^^ n) s"
        and conf = conf] assms(2)
    by simp
qed

lemma coincident_mainStep_sse3:
  assumes "\<not> use_ksquare b" "coincident C"
  shows "mainStep_sse3 b conf C = C"
proof -
  have "fs_C (mainStep_sse3_init conf C) = C" by (simp add: mainStep_sse3_init_def fs_simps)
  then show ?thesis
    unfolding mainStep_sse3_def mainStep_sse3_for_iterate
    using coincident_sse3_iterate [OF assms(1), where s = "mainStep_sse3_init conf C"
        and conf = conf] assms(2) coincident_mainStep [OF assms(2), of conf]
    by simp
qed

section \<open>A component of two nodes on a horizontal line\<close>

lemma pair_repDistSquare:
  assumes "minDist \<le> x1 - x0"
  shows "repDistSquare (pair_component x0 y x1 y) 0 (Suc 0) = (x1 - x0) * (x1 - x0)"
    and "repDistSquare (pair_component x0 y x1 y) (Suc 0) 0 = (x1 - x0) * (x1 - x0)"
proof -
  have "minDist * minDist \<le> (x1 - x0) * (x1 - x0)"
    using assms minDist_pos by (intro mult_mono) simp_all
  moreover have "(x0 - x1) * (x0 - x1) = (x1 - x0) * (x1 - x0)" by (simp add: algebra_simps)
  ultimately show "repDistSquare (pair_component x0 y x1 y) 0 (Suc 0) = (x1 - x0) * (x1 - x0)"
    and "repDistSquare (pair_component x0 y x1 y) (Suc 0) 0 = (x1 - x0) * (x1 - x0)"
    by (simp_all add: repDistSquare_def pair_component_def Let_def minDistSquare_def max_def)
qed

lemma pair_attrDist:
  assumes "minDist \<le> x1 - x0"
  shows "attrDist (pair_component x0 y x1 y) 0 = x1 - x0"
proof -
  have "sqrt ((x0 - x1) * (x0 - x1)) = x1 - x0"
    using assms minDist_pos by simp
  then show ?thesis
    using assms by (simp add: attrDist_def pair_component_def Let_def max_def)
qed

lemma pair_disp:
  assumes "minDist \<le> x1 - x0"
  shows "disp_of conf (pair_component x0 y x1 y)
           = ([pair_force conf (x1 - x0), - pair_force conf (x1 - x0)], [0, 0])"
proof -
  let ?C = "pair_component x0 y x1 y"
  have d: "x1 - x0 \<noteq> 0" using assms minDist_pos by simp
  have sel: "m_numNodes ?C = 2" "m_numEdges ?C = 1" "m_x ?C = [x0, x1]" "m_y ?C = [y, y]"
    "m_nodeWeight ?C = [1, 1]" "m_src ?C = [0]" "m_tgt ?C = [1]"
    by (simp_all add: pair_component_def)
  have r: "repulsive conf ?C
      = ([(x0 - x1) * (1 / ((x1 - x0) * (x1 - x0))) * c_rep conf,
          (x1 - x0) * (1 / ((x1 - x0) * (x1 - x0))) * c_rep conf], [0, 0])"
    by (simp add: repulsive_def repulsive_node_def repulsive_inner_def Let_def upt_0_2 sel
          pair_repDistSquare [OF assms])
  have "disp_of conf ?C
      = ([(x0 - x1) * (1 / ((x1 - x0) * (x1 - x0))) * c_rep conf
            - (x0 - x1) * (x1 - x0) / m_idealEdgeLength conf,
          (x1 - x0) * (1 / ((x1 - x0) * (x1 - x0))) * c_rep conf
            + (x0 - x1) * (x1 - x0) / m_idealEdgeLength conf], [0, 0])"
    unfolding disp_of_def r
    by (simp add: attractive_def attractive_edge_def Let_def sel pair_attrDist [OF assms])
  also have "\<dots> = ([pair_force conf (x1 - x0), - pair_force conf (x1 - x0)], [0, 0])"
  proof -
    define dd where "dd = x1 - x0"
    have n: "x0 - x1 = - dd" by (simp add: dd_def)
    have dz: "dd \<noteq> 0" using d by (simp add: dd_def)
    have a: "dd * (1 / (dd * dd)) * c_rep conf = c_rep conf / dd" using dz by simp
    have b: "- dd * (1 / (dd * dd)) * c_rep conf = - (c_rep conf / dd)" using dz by simp
    have c: "- dd * dd / m_idealEdgeLength conf = - (dd * dd / m_idealEdgeLength conf)" by simp
    show ?thesis
      unfolding n dd_def [symmetric] pair_force_def a b c by simp
  qed
  finally show ?thesis .
qed

lemma capDist_zero_y: "capDist dx 0 = max minDist \<bar>dx\<bar>"
  by (simp add: capDist_def)

lemma pair_body:
  assumes "minDist \<le> x1 - x0"
  shows "ls_C (mainStep_body conf (pair_component x0 y x1 y, tx, ty, cF, it, cv))
           = pair_component (x0 + xdisplace (pair_force conf (x1 - x0)) 0 tx) y
                            (x1 + xdisplace (- pair_force conf (x1 - x0)) 0 tx) y"
proof -
  let ?C = "pair_component x0 y x1 y"
  let ?s = "(?C, tx, ty, cF, it, cv)"
  have l: "length (m_x (ls_C ?s)) = m_numNodes (ls_C ?s)" "length (m_y (ls_C ?s)) = m_numNodes (ls_C ?s)"
    by (simp_all add: ls_simps pair_component_def)
  have y0: "ydisplace dx 0 ty = 0" for dx by (simp add: ydisplace_def)
  show ?thesis
    unfolding mainStep_body_C [OF l] ls_simps pair_disp [OF assms]
    by (simp add: pair_component_def upt_0_2 y0)
qed

lemma pair_exceeds:
  assumes "minDist \<le> x1 - x0"
  shows "exceeds conf (disp_of conf (pair_component x0 y x1 y)) tx ty 0 \<longleftrightarrow>
           (m_convTolerance conf * m_idealEdgeLength conf) * (m_convTolerance conf * m_idealEdgeLength conf)
             < xdisplace (pair_force conf (x1 - x0)) 0 tx * xdisplace (pair_force conf (x1 - x0)) 0 tx"
    and "exceeds conf (disp_of conf (pair_component x0 y x1 y)) tx ty 1 \<longleftrightarrow>
           (m_convTolerance conf * m_idealEdgeLength conf) * (m_convTolerance conf * m_idealEdgeLength conf)
             < xdisplace (- pair_force conf (x1 - x0)) 0 tx * xdisplace (- pair_force conf (x1 - x0)) 0 tx"
  unfolding pair_disp [OF assms]
  by (simp_all add: exceeds_def Let_def ydisplace_def)

lemma initialize_pair_any:
  assumes "m_idealEdgeLength conf = 1"
  shows "initialize conf (pair_component 3 5 4 5)
     = Some (conf\<lparr> m_txNull := 1 / 4, m_tyNull := 1 / 8 \<rparr>, pair_component 0 0 1 0)"
  using assms
  by (simp add: initialize_def pair_component_def Let_def updateMin_def updateMax_def upt_0_2)

lemma force_values:
  assumes "m_idealEdgeLength conf = 1"
  shows "xdisplace (pair_force conf (1 - 0)) 0 (1 / 4) = 1 / 4"
    and "xdisplace (- pair_force conf (1 - 0)) 0 (1 / 4) = - (1 / 4)"
    and "xdisplace (pair_force conf (3 / 4 - 1 / 4)) 0 (9 / 40) = 73 / 500"
    and "xdisplace (- pair_force conf (3 / 4 - 1 / 4)) 0 (9 / 40) = - (73 / 500)"
  using assms
  by (simp_all add: pair_force_def c_rep_def xdisplace_def capDist_zero_y minDist_def)

lemma tolerant_scalar:
  "mainStep (tolerant_solver\<lparr> m_txNull := 1 / 4, m_tyNull := 1 / 8 \<rparr>) (pair_component 0 0 1 0)
     = pair_component (1 / 4) 0 (3 / 4) 0"
proof -
  let ?c = "tolerant_solver\<lparr> m_txNull := 1 / 4, m_tyNull := 1 / 8 \<rparr>"
  let ?P = "pair_component 0 0 1 0"
  have k: "m_idealEdgeLength ?c = 1" "m_txNull ?c = 1 / 4" "m_tyNull ?c = 1 / 8"
    "m_convTolerance ?c = 1 / 2" "m_checkConvergence ?c" "m_iterations ?c \<noteq> 0"
    by (simp_all add: tolerant_solver_def SpringEmbedderFRExact_ctor_def)
  have m: "minDist \<le> 1 - (0::real)" by (simp add: minDist_def)
  have l: "length (m_x ?P) = m_numNodes ?P" "length (m_y ?P) = m_numNodes ?P"
    by (simp_all add: pair_component_def)
  have e: "\<forall>v<m_numNodes ?P. \<not> exceeds ?c (disp_of ?c ?P) (m_txNull ?c) (m_tyNull ?c) v"
  proof -
    have "\<not> exceeds ?c (disp_of ?c ?P) (m_txNull ?c) (m_tyNull ?c) 0"
      "\<not> exceeds ?c (disp_of ?c ?P) (m_txNull ?c) (m_tyNull ?c) 1"
      unfolding pair_exceeds [OF m] k force_values [OF k(1)] by simp_all
    moreover have "m_numNodes ?P = 2" by (simp add: pair_component_def)
    ultimately show ?thesis by (auto simp: less_Suc_eq numeral_2_eq_2)
  qed
  have "mainStep ?c ?P = ls_C (mainStep_body ?c (mainStep_init ?c ?P))"
    unfolding mainStep_def mainStep_one_iteration(1) [OF k(5,6) l e] ..
  also have "\<dots> = pair_component (1 / 4) 0 (3 / 4) 0"
    unfolding mainStep_init_def k pair_body [OF m] force_values [OF k(1)] by simp
  finally show ?thesis .
qed

lemma sse3_body_state:
  assumes "\<not> use_ksquare b" "length (m_x C) = m_numNodes C" "length (m_y C) = m_numNodes C"
  shows "mainStep_sse3_body b conf (C, tx, ty, cF, i)
     = (ls_C (mainStep_body conf (C, tx, ty, cF, 0, False)),
        fst (cool conf (tx, ty, cF)), fst (snd (cool conf (tx, ty, cF))),
        snd (snd (cool conf (tx, ty, cF))), i + 1)"
proof -
  let ?s = "(C, tx, ty, cF, i)"
  let ?t = "(C, tx, ty, cF, 0::int, False)"
  have l: "length (m_x (fs_C ?s)) = m_numNodes (fs_C ?s)" "length (m_y (fs_C ?s)) = m_numNodes (fs_C ?s)"
    using assms(2,3) by (simp_all add: fs_simps)
  have "fs_C (mainStep_sse3_body b conf ?s) = ls_C (mainStep_body conf ?t)"
    using mainStep_sse3_body_eq [OF assms(1) l, of ?t conf] by (simp add: ls_simps fs_simps)
  then show ?thesis
    by (simp add: mainStep_sse3_body_def Let_def fs_simps)
qed

lemma tolerant_sse3:
  "mainStep_sse3 \<lparr> haveSSE3 = True, sse3_extensions = True, use_ksquare = False \<rparr>
     (tolerant_solver\<lparr> m_txNull := 1 / 4, m_tyNull := 1 / 8 \<rparr>) (pair_component 0 0 1 0)
     = pair_component (99 / 250) 0 (151 / 250) 0"
proof -
  let ?b = "\<lparr> haveSSE3 = True, sse3_extensions = True, use_ksquare = False \<rparr>"
  let ?c = "tolerant_solver\<lparr> m_txNull := 1 / 4, m_tyNull := 1 / 8 \<rparr>"
  have k: "m_idealEdgeLength ?c = 1" "m_txNull ?c = 1 / 4" "m_tyNull ?c = 1 / 8"
    by (simp_all add: tolerant_solver_def SpringEmbedderFRExact_ctor_def)
  have u: "\<not> use_ksquare ?b" "sse3_extensions ?b" by simp_all
  have n: "nat (m_iterations ?c + 1 - fs_i (mainStep_sse3_init ?c (pair_component 0 0 1 0))) = Suc (Suc 0)"
    by (simp add: tolerant_solver_def SpringEmbedderFRExact_ctor_def mainStep_sse3_init_def fs_simps)
  have l: "length (m_x (pair_component x0 y0 x1 y1)) = m_numNodes (pair_component x0 y0 x1 y1)"
    "length (m_y (pair_component x0 y0 x1 y1)) = m_numNodes (pair_component x0 y0 x1 y1)"
    for x0 y0 x1 y1
    by (simp_all add: pair_component_def)
  have m1: "minDist \<le> 1 - (0::real)" and m2: "minDist \<le> 3 / 4 - (1 / 4 :: real)"
    by (simp_all add: minDist_def)
  have c1: "cool ?c (1 / 4, 1 / 8, 1) = (9 / 40, 9 / 80, 1)"
    by (simp add: cool_def tolerant_solver_def SpringEmbedderFRExact_ctor_def)
  have s1: "mainStep_sse3_body ?b ?c (pair_component 0 0 1 0, 1 / 4, 1 / 8, 1, 1)
      = (pair_component (1 / 4) 0 (3 / 4) 0, 9 / 40, 9 / 80, 1, 2)"
    unfolding sse3_body_state [OF u(1) l] pair_body [OF m1] force_values [OF k(1)] c1 by simp
  have c2: "cool ?c (9 / 40, 9 / 80, 1) = (81 / 400, 81 / 800, 1)"
    by (simp add: cool_def tolerant_solver_def SpringEmbedderFRExact_ctor_def)
  have s2: "mainStep_sse3_body ?b ?c (pair_component (1 / 4) 0 (3 / 4) 0, 9 / 40, 9 / 80, 1, 2)
      = (pair_component (99 / 250) 0 (151 / 250) 0, 81 / 400, 81 / 800, 1, 3)"
    unfolding sse3_body_state [OF u(1) l] pair_body [OF m2] force_values [OF k(1)] c2 by simp
  show ?thesis
    unfolding mainStep_sse3_def mainStep_sse3_for_iterate n
    using u(2) by (simp add: mainStep_sse3_init_def k s1 s2 fs_simps)
qed

section \<open>Convergence and the two paths of the engine\<close>

lemma capping_flag_false: "fst (capping conf disp tx ty (False, C)) = False"
  unfolding capping_def
  by (rule fold_invariant [where Q = "\<lambda>v. True"]) (simp_all add: capping_node_def Let_def)

lemma mainStep_body_unchecked:
  assumes "\<not> m_checkConvergence conf" "\<not> ls_converged s"
  shows "ls_converged (mainStep_body conf s) \<longleftrightarrow> ls_itCount s + 1 > m_iterations conf"
  using assms capping_flag_false
  by (simp add: mainStep_body_def Let_def ls_simps)

lemma mainStep_while_unchecked:
  "\<not> m_checkConvergence conf \<Longrightarrow> \<not> ls_converged s \<Longrightarrow> ls_itCount s \<le> m_iterations conf \<Longrightarrow>
   ls_itCount (mainStep_while conf s) = m_iterations conf + 1"
proof (induction conf s rule: mainStep_while.induct)
  case (1 conf s)
  show ?case
  proof (cases "ls_itCount s + 1 > m_iterations conf")
    case True
    then have "ls_converged (mainStep_body conf s)"
      using mainStep_body_unchecked [OF 1(2,3)] by simp
    then have "mainStep_while conf s = mainStep_body conf s"
      unfolding mainStep_while_step [OF 1(3)] by (rule mainStep_while_converged)
    then show ?thesis using True 1(4) by (simp add: mainStep_body_itCount)
  next
    case False
    then have "\<not> ls_converged (mainStep_body conf s)"
      using mainStep_body_unchecked [OF 1(2,3)] by simp
    moreover have "ls_itCount (mainStep_body conf s) \<le> m_iterations conf"
      using False by (simp add: mainStep_body_itCount)
    ultimately show ?thesis
      unfolding mainStep_while_step [OF 1(3)] using 1(1) [OF 1(3) 1(2)] by simp
  qed
qed

lemma initialize_coincident:
  assumes "m_idealEdgeLength conf = 1"
  shows "initialize conf (pair_component 3 5 3 5)
     = Some (conf\<lparr> m_txNull := sqrt 2 / 8, m_tyNull := sqrt 2 / 8 \<rparr>, pair_component 0 0 0 0)"
  using assms
  by (simp add: initialize_def pair_component_def Let_def updateMin_def updateMax_def upt_0_2)

lemma coincident_pair: "coincident (pair_component x y x y)"
  by (simp add: coincident_def pair_component_def)

lemma divisors_positive:
  "0 < repDistSquare C v u" "0 < attrDist C e" "0 < capDist dx dy"
proof -
  have "0 < minDistSquare" using minDist_pos by (simp add: minDistSquare_def)
  then show "0 < repDistSquare C v u"
    by (simp add: repDistSquare_def Let_def less_max_iff_disj)
  show "0 < attrDist C e"
    using minDist_pos by (simp add: attrDist_def Let_def less_max_iff_disj)
  show "0 < capDist dx dy" by (rule capDist_pos)
qed

text \<open>
  Claim C8, as amended. In a component of two nodes at identical coordinates, with an
  ideal edge length other than zero, no divisor is zero: the divisors of the repulsive
  and the capping pass and the distance of the attractive pass are clamped and positive,
  and the attractive pass divides by the ideal edge length;
  the displacement of both nodes is exactly zero in every iteration, so the positions
  never change and the two nodes stay at distance zero, on the scalar path and on the
  vectorized path.
\<close>

theorem coincident_nodes_stay:
  assumes "coincident C" and "m_idealEdgeLength conf \<noteq> 0"
  shows "0 < repDistSquare C v u \<and> 0 < attrDist C e \<and> 0 < capDist dx dy
       \<and> m_idealEdgeLength conf \<noteq> 0
       \<and> disp_of conf C = ([0, 0], [0, 0])
       \<and> ls_C (mainStep_body conf (C, tx, ty, cF, itCount, converged)) = C
       \<and> mainStep conf C = C
       \<and> (\<not> use_ksquare b \<longrightarrow> mainStep_sse3 b conf C = C)"
proof -
  have "ls_C (mainStep_body conf (C, tx, ty, cF, itCount, converged)) = C"
    using coincident_body [of "(C, tx, ty, cF, itCount, converged)" conf] assms(1)
    by (simp add: ls_simps)
  then show ?thesis
    using divisors_positive(1) [of C v u] divisors_positive(2) [of C e]
      divisors_positive(3) [of dx dy] coincident_disp [OF assms(1), of conf]
      coincident_mainStep [OF assms(1), of conf]
      coincident_mainStep_sse3 [OF _ assms(1), of b conf] assms(2)
    by simp
qed

theorem coincident_nodes_stay_witness:
  "coincident (pair_component 0 0 0 0)
   \<and> m_idealEdgeLength coincident_solver = 1
   \<and> disp_of coincident_solver (pair_component 0 0 0 0) = ([0, 0], [0, 0])
   \<and> mainStep coincident_solver (pair_component 0 0 0 0) = pair_component 0 0 0 0
   \<and> mainStep_sse3 \<lparr> haveSSE3 = True, sse3_extensions = True, use_ksquare = False \<rparr>
        coincident_solver (pair_component 0 0 0 0) = pair_component 0 0 0 0"
proof -
  have k: "m_idealEdgeLength coincident_solver = 1"
    by (simp add: coincident_solver_def SpringEmbedderFRExact_ctor_def)
  then have k0: "m_idealEdgeLength coincident_solver \<noteq> 0" by simp
  show ?thesis
    using coincident_nodes_stay [OF coincident_pair [of 0 0] k0,
        where b = "\<lparr> haveSSE3 = True, sse3_extensions = True, use_ksquare = False \<rparr>"]
      coincident_pair [of 0 0] k
    by simp
qed

text \<open>
  Claim C8 as stated fails: two nodes placed at \<open>(3, 5)\<close> are both at \<open>(0, 0)\<close> after
  \<open>initialize\<close>, and with convergence checking off \<open>mainStep\<close> runs all 1000 iterations
  and returns both nodes at \<open>(0, 0)\<close>: their distance never becomes positive.
\<close>

theorem coincident_never_separate_counterexample:
  "initialize ((SpringEmbedderFRExact_ctor 1 20)\<lparr> m_checkConvergence := False \<rparr>) (pair_component 3 5 3 5)
     = Some (coincident_solver\<lparr> m_checkConvergence := False \<rparr>, pair_component 0 0 0 0)
   \<and> ls_itCount (mainStep_while (coincident_solver\<lparr> m_checkConvergence := False \<rparr>)
        (mainStep_init (coincident_solver\<lparr> m_checkConvergence := False \<rparr>) (pair_component 0 0 0 0)))
       = 1001
   \<and> mainStep (coincident_solver\<lparr> m_checkConvergence := False \<rparr>) (pair_component 0 0 0 0)
       = pair_component 0 0 0 0
   \<and> m_x (pair_component 0 0 0 0) ! 0 = m_x (pair_component 0 0 0 0) ! 1
   \<and> m_y (pair_component 0 0 0 0) ! 0 = m_y (pair_component 0 0 0 0) ! 1"
proof -
  let ?c = "coincident_solver\<lparr> m_checkConvergence := False \<rparr>"
  let ?Z = "pair_component 0 0 0 0"
  have i: "initialize ((SpringEmbedderFRExact_ctor 1 20)\<lparr> m_checkConvergence := False \<rparr>)
      (pair_component 3 5 3 5) = Some (?c, ?Z)"
    by (subst initialize_coincident) (simp_all add: SpringEmbedderFRExact_ctor_def coincident_solver_def)
  have n: "ls_itCount (mainStep_while ?c (mainStep_init ?c ?Z)) = m_iterations ?c + 1"
    by (rule mainStep_while_unchecked)
       (simp_all add: coincident_solver_def SpringEmbedderFRExact_ctor_def mainStep_init_def ls_simps)
  have m: "m_iterations ?c = 1000"
    by (simp add: coincident_solver_def SpringEmbedderFRExact_ctor_def)
  show ?thesis
    using i n coincident_mainStep [OF coincident_pair [of 0 0], of ?c]
    by (simp add: m pair_component_def)
qed

text \<open>
  Claim C2 at a failing input. Two nodes at \<open>(3, 5)\<close> joined by an edge, default
  parameters, ideal edge length 1. After \<open>initialize\<close> no node exceeds the threshold in
  the first iteration. The scalar loop ends after that iteration (\<open>itCount\<close> is 2); the
  loop of the vectorized path has no convergence test and runs all 1000 iterations
  (\<open>i\<close> ends at 1001).
\<close>

theorem sse3_ignores_convergence:
  "initialize (SpringEmbedderFRExact_ctor 1 20) (pair_component 3 5 3 5)
     = Some (coincident_solver, pair_component 0 0 0 0)
   \<and> m_checkConvergence coincident_solver
   \<and> \<not> exceeds coincident_solver (disp_of coincident_solver (pair_component 0 0 0 0))
          (m_txNull coincident_solver) (m_tyNull coincident_solver) 0
   \<and> \<not> exceeds coincident_solver (disp_of coincident_solver (pair_component 0 0 0 0))
          (m_txNull coincident_solver) (m_tyNull coincident_solver) 1
   \<and> ls_itCount (mainStep_while coincident_solver
        (mainStep_init coincident_solver (pair_component 0 0 0 0))) = 2
   \<and> fs_i (mainStep_sse3_for \<lparr> haveSSE3 = True, sse3_extensions = True, use_ksquare = False \<rparr>
        coincident_solver (mainStep_sse3_init coincident_solver (pair_component 0 0 0 0))) = 1001"
proof -
  let ?c = coincident_solver
  let ?Z = "pair_component 0 0 0 0"
  have i: "initialize (SpringEmbedderFRExact_ctor 1 20) (pair_component 3 5 3 5) = Some (?c, ?Z)"
    by (subst initialize_coincident) (simp_all add: SpringEmbedderFRExact_ctor_def coincident_solver_def)
  have k: "m_checkConvergence ?c" "m_iterations ?c \<noteq> 0" "0 \<le> m_iterations ?c"
    "m_iterations ?c = 1000"
    by (simp_all add: coincident_solver_def SpringEmbedderFRExact_ctor_def)
  have e: "\<not> exceeds ?c (disp_of ?c ?Z) tx ty v" if "v < 2" for tx ty v
  proof -
    have "v = 0 \<or> v = 1" using that by auto
    then have "[0, 0::real] ! v = 0" by auto
    then show ?thesis
      unfolding coincident_disp [OF coincident_pair]
      by (simp add: exceeds_def Let_def xdisplace_zero not_less)
  qed
  have n2: "m_numNodes ?Z = 2" by (simp add: pair_component_def)
  have l: "length (m_x ?Z) = m_numNodes ?Z" "length (m_y ?Z) = m_numNodes ?Z"
    by (simp_all add: pair_component_def)
  have s: "ls_itCount (mainStep_while ?c (mainStep_init ?c ?Z)) = 2"
    by (rule mainStep_one_iteration(2) [OF k(1,2) l]) (simp add: e n2)
  have v: "fs_i (mainStep_sse3_for b ?c (mainStep_sse3_init ?c ?Z)) = 1001" for b
    unfolding mainStep_sse3_for_count [OF k(3)] k(4) by simp
  show ?thesis using i k(1) e s v by simp
qed

text \<open>
  Claim C3 at a failing input. Two nodes at \<open>(3, 5)\<close> and \<open>(4, 5)\<close> joined by an edge,
  ideal edge length 1, convergence tolerance 1/2, two iterations. The scalar path stops
  after the first iteration, in which no node moves by more than the threshold, and
  returns the nodes at \<open>x = 1/4\<close> and \<open>x = 3/4\<close>; the vectorized path runs the second
  iteration too and returns them at \<open>x = 99/250\<close> and \<open>x = 151/250\<close>.
\<close>

theorem paths_differ_after_convergence:
  "call_layout \<lparr> haveSSE3 = False, sse3_extensions = True, use_ksquare = False \<rparr>
       tolerant_solver (pair_component 3 5 4 5)
     = Some (tolerant_solver\<lparr> m_txNull := 1 / 4, m_tyNull := 1 / 8 \<rparr>,
             pair_component (1 / 4) 0 (3 / 4) 0)
   \<and> call_layout \<lparr> haveSSE3 = True, sse3_extensions = True, use_ksquare = False \<rparr>
       tolerant_solver (pair_component 3 5 4 5)
     = Some (tolerant_solver\<lparr> m_txNull := 1 / 4, m_tyNull := 1 / 8 \<rparr>,
             pair_component (99 / 250) 0 (151 / 250) 0)"
proof -
  have k: "m_idealEdgeLength tolerant_solver = 1"
    by (simp add: tolerant_solver_def SpringEmbedderFRExact_ctor_def)
  have n: "2 \<le> m_numNodes (pair_component 3 5 4 5)" by (simp add: pair_component_def)
  show ?thesis
    using n by (simp add: call_layout_def initialize_pair_any [OF k] tolerant_scalar tolerant_sse3)
qed

section \<open>The flat graph view built by initCC\<close>

subsection \<open>The first loop of initCC\<close>

lemma count_fold: "fold (\<lambda>w ne. if v < w then ne + 1 else ne) ws (ne::nat) = ne + length (filter (\<lambda>w. v < w) ws)"
  by (induction ws arbitrary: ne) simp_all

lemma initCC_node_fields:
  "m_orig (initCC_node ga v C) = m_orig C @ [v]"
  "m_x (initCC_node ga v C) = m_x C @ [ga_x ga v]"
  "m_y (initCC_node ga v C) = m_y C @ [ga_y ga v]"
  "length (m_nodeWeight (initCC_node ga v C)) = Suc (length (m_nodeWeight C))"
  "m_numEdges (initCC_node ga v C) = m_numEdges C + length (upper (constGraph ga) v)"
  "m_numNodes (initCC_node ga v C) = m_numNodes C"
  "m_mapNode (initCC_node ga v C) = (m_mapNode C)(v := length (m_orig C))"
  by (simp_all add: initCC_node_def Let_def count_fold upper_def)

lemma first_loop:
  "m_orig (fold (initCC_node ga) vs C) = m_orig C @ vs"
  "m_x (fold (initCC_node ga) vs C) = m_x C @ map (ga_x ga) vs"
  "m_y (fold (initCC_node ga) vs C) = m_y C @ map (ga_y ga) vs"
  "length (m_nodeWeight (fold (initCC_node ga) vs C)) = length (m_nodeWeight C) + length vs"
  "m_numEdges (fold (initCC_node ga) vs C)
     = m_numEdges C + length (concat (map (upper (constGraph ga)) vs))"
  "m_numNodes (fold (initCC_node ga) vs C) = m_numNodes C"
  by (induction vs arbitrary: C) (simp_all add: initCC_node_fields)

lemma first_loop_mapNode_other:
  "w \<notin> set vs \<Longrightarrow> m_mapNode (fold (initCC_node ga) vs C) w = m_mapNode C w"
  by (induction vs arbitrary: C) (simp_all add: initCC_node_fields)

lemma first_loop_mapNode:
  "distinct vs \<Longrightarrow> j < length vs \<Longrightarrow>
   m_mapNode (fold (initCC_node ga) vs C) (vs ! j) = length (m_orig C) + j"
proof (induction vs arbitrary: C j)
  case Nil
  then show ?case by simp
next
  case (Cons v vs)
  show ?case
  proof (cases j)
    case 0
    then show ?thesis
      using Cons.prems by (simp add: first_loop_mapNode_other initCC_node_fields)
  next
    case (Suc j')
    then show ?thesis
      using Cons.prems Cons.IH [of j' "initCC_node ga v C"] by (simp add: initCC_node_fields)
  qed
qed

subsection \<open>The second loop of initCC\<close>

lemma initCC_edges_eq:
  "initCC_edges ga C (v, srcId) (src, tgt)
     = (src @ map (\<lambda>w. srcId) (upper (constGraph ga) v),
        tgt @ map (m_mapNode C) (upper (constGraph ga) v))"
proof -
  have "fold (\<lambda>w (src, tgt). if v < w then (src @ [a], tgt @ [m_mapNode C w]) else (src, tgt))
          ws (src, tgt)
        = (src @ map (\<lambda>w. a) (filter (\<lambda>w. v < w) ws),
           tgt @ map (m_mapNode C) (filter (\<lambda>w. v < w) ws))" for ws a
    by (induction ws arbitrary: src tgt) simp_all
  from this [of "snd (v, srcId)"] show ?thesis
    unfolding initCC_edges_def upper_def fst_conv by simp
qed

lemma second_loop:
  "fold (initCC_edges ga C) ps (src, tgt)
     = (src @ concat (map (\<lambda>(v, srcId). map (\<lambda>w. srcId) (upper (constGraph ga) v)) ps),
        tgt @ concat (map (\<lambda>(v, srcId). map (m_mapNode C) (upper (constGraph ga) v)) ps))"
proof (induction ps arbitrary: src tgt)
  case Nil
  then show ?case by simp
next
  case (Cons p ps)
  obtain v srcId where p: "p = (v, srcId)" by (cases p)
  show ?case by (simp add: p initCC_edges_eq Cons)
qed

lemma zip_concat:
  assumes "\<And>x. x \<in> set xs \<Longrightarrow> length (f x) = length (g x)"
  shows "zip (concat (map f xs)) (concat (map g xs)) = concat (map (\<lambda>x. zip (f x) (g x)) xs)"
  using assms by (induction xs) simp_all

lemma initCC_result:
  fixes AG C i
  defines "ns \<equiv> m_nodesInCC C ! i"
  defines "G \<equiv> constGraph AG"
  defines "C1 \<equiv> fold (initCC_node AG) ns
      (C\<lparr> m_numNodes := length ns, m_numEdges := 0, m_orig := [], m_x := [], m_y := [],
           m_nodeWeight := [] \<rparr>)"
  shows "m_orig (initCC AG C i) = ns"
    and "m_numNodes (initCC AG C i) = length ns"
    and "m_x (initCC AG C i) = map (ga_x AG) ns"
    and "m_y (initCC AG C i) = map (ga_y AG) ns"
    and "length (m_nodeWeight (initCC AG C i)) = length ns"
    and "m_numEdges (initCC AG C i) = length (concat (map (upper G) ns))"
    and "m_src (initCC AG C i)
           = concat (map (\<lambda>(v, srcId). map (\<lambda>w. srcId) (upper G v)) (zip ns [0..<length ns]))"
    and "m_tgt (initCC AG C i)
           = concat (map (\<lambda>(v, srcId). map (m_mapNode C1) (upper G v)) (zip ns [0..<length ns]))"
    and "distinct ns \<Longrightarrow> j < length ns \<Longrightarrow> m_mapNode C1 (ns ! j) = j"
proof -
  have C': "initCC AG C i = C1\<lparr> m_src := fst (fold (initCC_edges AG C1) (zip ns [0..<length ns]) ([], [])),
                                m_tgt := snd (fold (initCC_edges AG C1) (zip ns [0..<length ns]) ([], [])) \<rparr>"
    by (simp add: initCC_def Let_def ns_def C1_def)
  show "m_orig (initCC AG C i) = ns" "m_numNodes (initCC AG C i) = length ns"
    "m_x (initCC AG C i) = map (ga_x AG) ns" "m_y (initCC AG C i) = map (ga_y AG) ns"
    "length (m_nodeWeight (initCC AG C i)) = length ns"
    "m_numEdges (initCC AG C i) = length (concat (map (upper G) ns))"
    unfolding C' by (simp_all add: C1_def first_loop G_def)
  show "m_src (initCC AG C i)
           = concat (map (\<lambda>(v, srcId). map (\<lambda>w. srcId) (upper G v)) (zip ns [0..<length ns]))"
    "m_tgt (initCC AG C i)
           = concat (map (\<lambda>(v, srcId). map (m_mapNode C1) (upper G v)) (zip ns [0..<length ns]))"
    unfolding C' by (simp_all add: second_loop G_def)
  show "distinct ns \<Longrightarrow> j < length ns \<Longrightarrow> m_mapNode C1 (ns ! j) = j"
    unfolding C1_def by (simp add: first_loop_mapNode)
qed


subsection \<open>The stored edges\<close>

lemma component_ok_closed:
  assumes "component_ok G ns" "v \<in> set ns" "w \<in> set (upper G v)"
  shows "w \<in> set ns" "v < w"
  using assms by (auto simp: component_ok_def upper_def)

lemma stored_edges_initCC:
  assumes "component_ok (constGraph AG) (m_nodesInCC C ! i)"
  shows "stored_edges (initCC AG C i)
     = concat (map (\<lambda>v. map (Pair v) (upper (constGraph AG) v)) (m_nodesInCC C ! i))"
proof -
  define ns where "ns = m_nodesInCC C ! i"
  define G where "G = constGraph AG"
  define C1 where "C1 = fold (initCC_node AG) ns
      (C\<lparr> m_numNodes := length ns, m_numEdges := 0, m_orig := [], m_x := [], m_y := [],
           m_nodeWeight := [] \<rparr>)"
  note r = initCC_result [where AG = AG and C = C and i = i, folded ns_def G_def, folded C1_def]
  have ok: "component_ok G ns" using assms by (simp add: ns_def G_def)
  then have dist: "distinct ns" by (simp add: component_ok_def)
  have mp: "ns ! (m_mapNode C1 w) = w" if "w \<in> set ns" for w
  proof -
    from that obtain j where "j < length ns" "ns ! j = w" by (auto simp: in_set_conv_nth)
    then show ?thesis using r(9) [OF dist, of j] by simp
  qed
  have z: "zip (m_src (initCC AG C i)) (m_tgt (initCC AG C i))
      = concat (map (\<lambda>(v, srcId). map (\<lambda>w. (srcId, m_mapNode C1 w)) (upper G v)) (zip ns [0..<length ns]))"
    unfolding r(7,8)
    by (subst zip_concat) (auto simp: zip_map_map zip_same_conv_map case_prod_unfold comp_def)
  have "stored_edges (initCC AG C i)
      = concat (map (\<lambda>(v, srcId). map (\<lambda>w. (ns ! srcId, ns ! (m_mapNode C1 w))) (upper G v))
                 (zip ns [0..<length ns]))"
    unfolding stored_edges_def z r(1)
    by (simp add: map_concat case_prod_unfold comp_def)
  also have "\<dots> = concat (map (\<lambda>(v, srcId). map (Pair v) (upper G v)) (zip ns [0..<length ns]))"
  proof (rule arg_cong [where f = concat], rule map_cong [OF refl])
    fix p assume p: "p \<in> set (zip ns [0..<length ns])"
    obtain v srcId where pv: "p = (v, srcId)" by (cases p)
    from p pv have v: "v \<in> set ns" and id: "ns ! srcId = v"
      by (auto simp: in_set_zip)
    have "map (\<lambda>w. (ns ! srcId, ns ! (m_mapNode C1 w))) (upper G v) = map (Pair v) (upper G v)"
      by (rule map_cong [OF refl]) (simp add: id mp component_ok_closed(1) [OF ok v])
    then show "(case p of (v, srcId) \<Rightarrow> map (\<lambda>w. (ns ! srcId, ns ! (m_mapNode C1 w))) (upper G v))
        = (case p of (v, srcId) \<Rightarrow> map (Pair v) (upper G v))"
      by (simp add: pv)
  qed
  also have "\<dots> = concat (map (\<lambda>v. map (Pair v) (upper G v)) ns)"
  proof -
    have "map (\<lambda>(v, srcId). map (Pair v) (upper G v)) (zip ns [0..<length ns])
        = map (\<lambda>v. map (Pair v) (upper G v)) (map fst (zip ns [0..<length ns]))"
      by (simp add: case_prod_unfold comp_def del: map_fst_zip)
    also have "map fst (zip ns [0..<length ns]) = ns" by simp
    finally show ?thesis by simp
  qed
  finally show ?thesis by (simp add: ns_def G_def)
qed

lemma twins_Cons:
  "twins ((s, t) # es) v = (if s = v then [t] else []) @ (if t = v then [s] else []) @ twins es v"
  by (simp add: twins_def)

lemma in_twins:
  assumes "(s, t) \<in> set es"
  shows "t \<in> set (twins es s)" "s \<in> set (twins es t)"
  using assms by (auto simp: twins_def intro!: bexI [of _ "(s, t)"])

lemma sum_list_single:
  fixes M :: "'a multiset"
  assumes "distinct ns"
  shows "(\<Sum>v\<leftarrow>ns. if v = a then M else {#}) = (if a \<in> set ns then M else {#})"
  using assms by (induction ns) auto

lemma upper_twins_mset:
  assumes "distinct ns" "\<forall>(s, t)\<in>set es. s \<in> set ns \<longleftrightarrow> t \<in> set ns"
  shows "(\<Sum>v\<leftarrow>ns. image_mset (Pair v) (filter_mset (\<lambda>w. v < w) (mset (twins es v))))
     = mset (map norm_edge (filter (\<lambda>(s, t). s \<in> set ns \<and> s \<noteq> t) es))"
  using assms(2)
proof (induction es)
  case Nil
  show ?case by (simp add: twins_def)
next
  case (Cons e es)
  obtain s t where e: "e = (s, t)" by (cases e)
  have st: "s \<in> set ns \<longleftrightarrow> t \<in> set ns" using Cons.prems by (simp add: e)
  have IH: "(\<Sum>v\<leftarrow>ns. image_mset (Pair v) (filter_mset (\<lambda>w. v < w) (mset (twins es v))))
     = mset (map norm_edge (filter (\<lambda>(s, t). s \<in> set ns \<and> s \<noteq> t) es))"
    using Cons by simp
  have split: "image_mset (Pair v) (filter_mset (\<lambda>w. v < w) (mset (twins (e # es) v)))
      = (if v = s then (if s < t then {#(s, t)#} else {#}) else {#})
        + ((if v = t then (if t < s then {#(t, s)#} else {#}) else {#})
        + image_mset (Pair v) (filter_mset (\<lambda>w. v < w) (mset (twins es v))))" for v
    by (simp add: e twins_Cons)
  have "(\<Sum>v\<leftarrow>ns. image_mset (Pair v) (filter_mset (\<lambda>w. v < w) (mset (twins (e # es) v))))
      = (if s \<in> set ns then (if s < t then {#(s, t)#} else {#}) else {#})
        + ((if t \<in> set ns then (if t < s then {#(t, s)#} else {#}) else {#})
        + mset (map norm_edge (filter (\<lambda>(s, t). s \<in> set ns \<and> s \<noteq> t) es)))"
    unfolding split sum_list_addf sum_list_single [OF assms(1)] IH ..
  also have "\<dots> = mset (map norm_edge (filter (\<lambda>(s, t). s \<in> set ns \<and> s \<noteq> t) (e # es)))"
    using st by (auto simp: e norm_edge_def min_def max_def)
  finally show ?case .
qed

lemma component_edges_closed:
  assumes "component_ok G ns" "(s, t) \<in> set (edges G)"
  shows "s \<in> set ns \<longleftrightarrow> t \<in> set ns"
proof
  assume s: "s \<in> set ns"
  have "t \<in> set (twins (edges G) s)" using in_twins(1) [OF assms(2)] .
  then have "t \<in> set (adjEntries G s)"
    using assms(1) s by (metis component_ok_def mset_eq_setD)
  then show "t \<in> set ns" using assms(1) s by (auto simp: component_ok_def)
next
  assume t: "t \<in> set ns"
  have "s \<in> set (twins (edges G) t)" using in_twins(2) [OF assms(2)] .
  then have "s \<in> set (adjEntries G t)"
    using assms(1) t by (metis component_ok_def mset_eq_setD)
  then show "s \<in> set ns" using assms(1) t by (auto simp: component_ok_def)
qed

lemma stored_edges_mset:
  assumes "component_ok (constGraph AG) (m_nodesInCC C ! i)"
  shows "mset (stored_edges (initCC AG C i))
     = mset (map norm_edge (filter (\<lambda>(s, t). s \<in> set (m_nodesInCC C ! i) \<and> s \<noteq> t)
                              (edges (constGraph AG))))"
proof -
  define ns where "ns = m_nodesInCC C ! i"
  define G where "G = constGraph AG"
  have ok: "component_ok G ns" using assms by (simp add: ns_def G_def)
  then have dist: "distinct ns" by (simp add: component_ok_def)
  have cl: "\<forall>(s, t)\<in>set (edges G). s \<in> set ns \<longleftrightarrow> t \<in> set ns"
    using component_edges_closed [OF ok] by auto
  have "mset (stored_edges (initCC AG C i))
      = (\<Sum>v\<leftarrow>ns. image_mset (Pair v) (filter_mset (\<lambda>w. v < w) (mset (adjEntries G v))))"
    unfolding stored_edges_initCC [OF assms]
    by (simp add: mset_concat comp_def upper_def ns_def G_def)
  also have "\<dots> = (\<Sum>v\<leftarrow>ns. image_mset (Pair v) (filter_mset (\<lambda>w. v < w) (mset (twins (edges G) v))))"
    using ok by (intro arg_cong [where f = sum_list] map_cong refl) (simp add: component_ok_def)
  also have "\<dots> = mset (map norm_edge (filter (\<lambda>(s, t). s \<in> set ns \<and> s \<noteq> t) (edges G)))"
    by (rule upper_twins_mset [OF dist cl])
  finally show ?thesis by (simp add: ns_def G_def)
qed


lemma length_concat_zip:
  "length (concat (map (\<lambda>(v, srcId). map (f v srcId) (upper G v)) (zip ns [0..<length ns])))
     = length (concat (map (upper G) ns))"
proof -
  have "map (\<lambda>p. length (case p of (v, srcId) \<Rightarrow> map (f v srcId) (upper G v))) (zip ns [0..<length ns])
      = map (\<lambda>v. length (upper G v)) (map fst (zip ns [0..<length ns]))"
    by (simp add: case_prod_unfold comp_def del: map_fst_zip)
  also have "map fst (zip ns [0..<length ns]) = ns" by simp
  finally show ?thesis by (simp add: length_concat comp_def)
qed

lemma initCC_indices:
  assumes "component_ok (constGraph AG) (m_nodesInCC C ! i)"
  shows "length (m_src (initCC AG C i)) = m_numEdges (initCC AG C i)"
    and "length (m_tgt (initCC AG C i)) = m_numEdges (initCC AG C i)"
    and "\<forall>a\<in>set (m_src (initCC AG C i)). a < m_numNodes (initCC AG C i)"
    and "\<forall>a\<in>set (m_tgt (initCC AG C i)). a < m_numNodes (initCC AG C i)"
proof -
  define ns where "ns = m_nodesInCC C ! i"
  define G where "G = constGraph AG"
  define C1 where "C1 = fold (initCC_node AG) ns
      (C\<lparr> m_numNodes := length ns, m_numEdges := 0, m_orig := [], m_x := [], m_y := [],
           m_nodeWeight := [] \<rparr>)"
  note r = initCC_result [where AG = AG and C = C and i = i, folded ns_def G_def, folded C1_def]
  have ok: "component_ok G ns" using assms by (simp add: ns_def G_def)
  then have dist: "distinct ns" by (simp add: component_ok_def)
  show "length (m_src (initCC AG C i)) = m_numEdges (initCC AG C i)"
    unfolding r(6,7) by (rule length_concat_zip)
  show "length (m_tgt (initCC AG C i)) = m_numEdges (initCC AG C i)"
    unfolding r(6,8) by (rule length_concat_zip)
  show "\<forall>a\<in>set (m_src (initCC AG C i)). a < m_numNodes (initCC AG C i)"
    unfolding r(2,7) by (auto simp: in_set_zip)
  show "\<forall>a\<in>set (m_tgt (initCC AG C i)). a < m_numNodes (initCC AG C i)"
  proof
    fix a assume "a \<in> set (m_tgt (initCC AG C i))"
    then obtain v w where v: "v \<in> set ns" and w: "w \<in> set (upper G v)" and a: "a = m_mapNode C1 w"
      unfolding r(8) by (auto simp: in_set_zip) (use nth_mem in blast)
    have "w \<in> set ns" by (rule component_ok_closed(1) [OF ok v w])
    then obtain j where j: "j < length ns" "ns ! j = w" by (auto simp: in_set_conv_nth)
    then have "m_mapNode C1 w = j" using r(9) [OF dist, of j] by simp
    then show "a < m_numNodes (initCC AG C i)" using j a by (simp add: r(2))
  qed
qed

lemma loop_initCC:
  "initCC loop_attributes (ArrayGraph_ctor loop_attributes 1 connected_index) 0
     = (pair_component 3 5 4 5)\<lparr> m_numEdges := 2, m_src := [0, 0], m_tgt := [1, 1] \<rparr>"
  by (simp add: initCC_def ArrayGraph_ctor_def connected_index_def loop_attributes_def pair_component_def
        initCC_node_def initCC_edges_def Let_def)

lemma loop_component_ok:
  "component_ok (constGraph loop_attributes) (m_nodesInCC (ArrayGraph_ctor loop_attributes 1 connected_index) ! 0)"
  by (auto simp: component_ok_def ArrayGraph_ctor_def connected_index_def loop_attributes_def twins_def)

text \<open>
  Claim C7, as amended. For a component built by \<open>initCC\<close>: \<open>m_orig\<close> lists the nodes of
  the component, so that it is a bijection between \<open>[0, nodeCount)\<close> and the node set;
  the coordinate and weight buffers hold \<open>nodeCount\<close> entries; every stored pair
  \<open>(m_src[j], m_tgt[j])\<close> consists of indices below \<open>nodeCount\<close> and is recorded at the
  endpoint of smaller index; and the stored pairs, as a multiset, are exactly the edges
  of the component that are not self-loops, each one once. A self-loop is never stored.
\<close>

theorem initCC_component:
  assumes "component_ok (constGraph AG) (m_nodesInCC C ! i)"
  shows "m_numNodes (initCC AG C i) = length (m_nodesInCC C ! i)
       \<and> m_orig (initCC AG C i) = m_nodesInCC C ! i
       \<and> bij_betw (\<lambda>j. m_orig (initCC AG C i) ! j) {0..<m_numNodes (initCC AG C i)}
            (set (m_nodesInCC C ! i))
       \<and> length (m_x (initCC AG C i)) = m_numNodes (initCC AG C i)
       \<and> length (m_y (initCC AG C i)) = m_numNodes (initCC AG C i)
       \<and> length (m_nodeWeight (initCC AG C i)) = m_numNodes (initCC AG C i)
       \<and> length (m_src (initCC AG C i)) = m_numEdges (initCC AG C i)
       \<and> length (m_tgt (initCC AG C i)) = m_numEdges (initCC AG C i)
       \<and> (\<forall>j<m_numEdges (initCC AG C i).
             m_src (initCC AG C i) ! j < m_numNodes (initCC AG C i)
           \<and> m_tgt (initCC AG C i) ! j < m_numNodes (initCC AG C i)
           \<and> m_orig (initCC AG C i) ! (m_src (initCC AG C i) ! j)
               < m_orig (initCC AG C i) ! (m_tgt (initCC AG C i) ! j))
       \<and> mset (stored_edges (initCC AG C i))
           = mset (map norm_edge
               (filter (\<lambda>(s, t). s \<in> set (m_nodesInCC C ! i) \<and> s \<noteq> t) (edges (constGraph AG))))"
proof -
  define ns where "ns = m_nodesInCC C ! i"
  define C' where "C' = initCC AG C i"
  note r = initCC_result [where AG = AG and C = C and i = i, folded ns_def C'_def]
  note ix = initCC_indices [OF assms, folded C'_def]
  have ok: "component_ok (constGraph AG) ns" using assms by (simp add: ns_def)
  then have dist: "distinct ns" by (simp add: component_ok_def)
  have bij: "bij_betw (\<lambda>j. m_orig C' ! j) {0..<m_numNodes C'} (set ns)"
    unfolding r(1,2) using dist by (intro bij_betw_nth) auto
  have st: "stored_edges C' = concat (map (\<lambda>v. map (Pair v) (upper (constGraph AG) v)) ns)"
    using stored_edges_initCC [OF assms] by (simp add: C'_def ns_def)
  have ord: "m_orig C' ! (m_src C' ! j) < m_orig C' ! (m_tgt C' ! j)" if "j < m_numEdges C'" for j
  proof -
    have l: "j < length (stored_edges C')" using that ix(1,2) by (simp add: stored_edges_def)
    then have "stored_edges C' ! j \<in> set (stored_edges C')" by simp
    then have "fst (stored_edges C' ! j) < snd (stored_edges C' ! j)"
      unfolding st using component_ok_closed(2) [OF ok] by auto
    moreover have "stored_edges C' ! j = (m_orig C' ! (m_src C' ! j), m_orig C' ! (m_tgt C' ! j))"
      using that ix(1,2) by (simp add: stored_edges_def)
    ultimately show ?thesis by simp
  qed
  have idx: "m_src C' ! j < m_numNodes C' \<and> m_tgt C' ! j < m_numNodes C'" if "j < m_numEdges C'" for j
    using that ix by simp
  have ms: "mset (stored_edges C')
      = mset (map norm_edge (filter (\<lambda>(s, t). s \<in> set ns \<and> s \<noteq> t) (edges (constGraph AG))))"
    using stored_edges_mset [OF assms] by (simp add: C'_def ns_def)
  show ?thesis
    unfolding C'_def [symmetric] ns_def [symmetric]
    using r(1,2,3,4,5) ix(1,2) bij ord idx ms by simp
qed

theorem initCC_component_witness:
  "component_ok (constGraph loop_attributes) (m_nodesInCC (ArrayGraph_ctor loop_attributes 1 connected_index) ! 0)
   \<and> m_orig (initCC loop_attributes (ArrayGraph_ctor loop_attributes 1 connected_index) 0) = [0, 1]
   \<and> m_src (initCC loop_attributes (ArrayGraph_ctor loop_attributes 1 connected_index) 0) = [0, 0]
   \<and> m_tgt (initCC loop_attributes (ArrayGraph_ctor loop_attributes 1 connected_index) 0) = [1, 1]
   \<and> mset (stored_edges (initCC loop_attributes (ArrayGraph_ctor loop_attributes 1 connected_index) 0))
       = mset (map norm_edge (filter (\<lambda>(s, t).
             s \<in> set (m_nodesInCC (ArrayGraph_ctor loop_attributes 1 connected_index) ! 0) \<and> s \<noteq> t)
           (edges (constGraph loop_attributes))))"
proof -
  note t = initCC_component [OF loop_component_ok]
  have a: "m_orig (initCC loop_attributes (ArrayGraph_ctor loop_attributes 1 connected_index) 0) = [0, 1]"
    "m_src (initCC loop_attributes (ArrayGraph_ctor loop_attributes 1 connected_index) 0) = [0, 0]"
    "m_tgt (initCC loop_attributes (ArrayGraph_ctor loop_attributes 1 connected_index) 0) = [1, 1]"
    unfolding loop_initCC by (simp_all add: pair_component_def)
  show ?thesis
    by (intro conjI loop_component_ok a) (use t in blast)
qed

text \<open>
  Claim C7 as stated fails: of the three edges of the example, the two between nodes
  \<open>0\<close> and \<open>1\<close> are stored, once each, and the self-loop at node \<open>0\<close> is not stored.
\<close>

theorem self_loop_not_stored_counterexample:
  "edges (constGraph loop_attributes) = [(1, 0), (0, 0), (0, 1)]
   \<and> stored_edges (initCC loop_attributes (ArrayGraph_ctor loop_attributes 1 connected_index) 0)
       = [(0, 1), (0, 1)]
   \<and> m_numEdges (initCC loop_attributes (ArrayGraph_ctor loop_attributes 1 connected_index) 0) = 2
   \<and> (0, 0) \<notin> set (stored_edges (initCC loop_attributes (ArrayGraph_ctor loop_attributes 1 connected_index) 0))"
  unfolding loop_initCC
  by (simp add: stored_edges_def pair_component_def) (simp add: loop_attributes_def)

section \<open>The whole call\<close>

lemma same_shape_refl: "same_shape C C"
  by (simp add: same_shape_def)

lemma same_shape_trans: "same_shape C C' \<Longrightarrow> same_shape C' C'' \<Longrightarrow> same_shape C C''"
  by (simp add: same_shape_def)

lemma initialize_shape:
  assumes "m_numNodes C \<noteq> 0"
  shows "\<exists>conf' C'. initialize conf C = Some (conf', C') \<and> same_shape C C'"
  using assms
  by (simp add: initialize_def Let_def)
     (rule fold_invariant [where Q = "\<lambda>v. True"], simp_all add: same_shape_def)

lemma capped_shape:
  assumes "length (m_x C) = m_numNodes C" "length (m_y C) = m_numNodes C"
  shows "same_shape C (capped disp tx ty C (m_numNodes C))"
  using assms by (simp add: same_shape_def capped_def)

lemma mainStep_body_shape:
  assumes "length (m_x (ls_C s)) = m_numNodes (ls_C s)" "length (m_y (ls_C s)) = m_numNodes (ls_C s)"
  shows "same_shape (ls_C s) (ls_C (mainStep_body conf s))"
  unfolding mainStep_body_C [OF assms] using assms by (simp add: same_shape_def)

lemma mainStep_while_shape:
  "length (m_x (ls_C s)) = m_numNodes (ls_C s) \<Longrightarrow> length (m_y (ls_C s)) = m_numNodes (ls_C s) \<Longrightarrow>
   same_shape (ls_C s) (ls_C (mainStep_while conf s))"
proof (induction conf s rule: mainStep_while.induct)
  case (1 conf s)
  show ?case
  proof (cases "ls_converged s")
    case True
    then show ?thesis by (simp add: mainStep_while_converged same_shape_refl)
  next
    case False
    note b = mainStep_body_shape [OF 1(2,3), of conf]
    have "same_shape (ls_C (mainStep_body conf s)) (ls_C (mainStep_while conf (mainStep_body conf s)))"
      using 1(1) [OF False] b 1(2,3) by (simp add: same_shape_def)
    then show ?thesis
      unfolding mainStep_while_step [OF False] using b by (rule same_shape_trans [rotated])
  qed
qed

lemma mainStep_shape:
  assumes "length (m_x C) = m_numNodes C" "length (m_y C) = m_numNodes C"
  shows "same_shape C (mainStep conf C)"
  unfolding mainStep_def
  using mainStep_while_shape [of "mainStep_init conf C" conf] assms
  by (simp add: mainStep_init_def ls_simps)

lemma mainStep_sse3_body_shape:
  assumes "length (m_x (fs_C s)) = m_numNodes (fs_C s)" "length (m_y (fs_C s)) = m_numNodes (fs_C s)"
  shows "same_shape (fs_C s) (fs_C (mainStep_sse3_body b conf s))"
proof -
  have "fs_C (mainStep_sse3_body b conf s)
      = capped (attractive conf (fs_C s) (repulsive_sse3 b conf (fs_C s))) (fs_tx s) (fs_ty s)
          (fs_C s) (m_numNodes (fs_C s))"
    by (simp add: mainStep_sse3_body_def Let_def fs_simps capping_sse3_eq [OF assms])
  then show ?thesis using capped_shape [OF assms] by simp
qed

lemma mainStep_sse3_iterate_shape:
  assumes "length (m_x (fs_C s)) = m_numNodes (fs_C s)" "length (m_y (fs_C s)) = m_numNodes (fs_C s)"
  shows "same_shape (fs_C s) (fs_C ((mainStep_sse3_body b conf ^^ n) s))"
proof (induction n)
  case 0
  then show ?case by (simp add: same_shape_refl)
next
  case (Suc n)
  let ?t = "(mainStep_sse3_body b conf ^^ n) s"
  have l: "length (m_x (fs_C ?t)) = m_numNodes (fs_C ?t)" "length (m_y (fs_C ?t)) = m_numNodes (fs_C ?t)"
    using Suc assms by (simp_all add: same_shape_def)
  show ?case
    using same_shape_trans [OF Suc mainStep_sse3_body_shape [OF l, of b conf]] by simp
qed

lemma mainStep_sse3_shape:
  assumes "length (m_x C) = m_numNodes C" "length (m_y C) = m_numNodes C"
  shows "same_shape C (mainStep_sse3 b conf C)"
proof (cases "sse3_extensions b")
  case True
  have "fs_C (mainStep_sse3_init conf C) = C" by (simp add: mainStep_sse3_init_def fs_simps)
  then show ?thesis
    unfolding mainStep_sse3_def mainStep_sse3_for_iterate
    using True mainStep_sse3_iterate_shape [where s = "mainStep_sse3_init conf C" and b = b and conf = conf]
      assms
    by simp
next
  case False
  then show ?thesis by (simp add: mainStep_sse3_def mainStep_shape [OF assms])
qed

lemma call_layout_shape:
  assumes "length (m_x C) = m_numNodes C" "length (m_y C) = m_numNodes C"
  shows "\<exists>conf' C'. call_layout b conf C = Some (conf', C') \<and> same_shape C C'"
proof (cases "2 \<le> m_numNodes C")
  case True
  then have "m_numNodes C \<noteq> 0" by simp
  from initialize_shape [OF this, of conf] obtain conf1 C1 where
    i: "initialize conf C = Some (conf1, C1)" and s: "same_shape C C1" by blast
  have l: "length (m_x C1) = m_numNodes C1" "length (m_y C1) = m_numNodes C1"
    using s assms by (simp_all add: same_shape_def)
  show ?thesis
    using True i same_shape_trans [OF s mainStep_shape [OF l]]
      same_shape_trans [OF s mainStep_sse3_shape [OF l]]
    by (simp add: call_layout_def)
next
  case False
  then show ?thesis by (simp add: call_layout_def same_shape_refl)
qed

lemma call_writeback_defined:
  assumes "m_numNodes C \<noteq> 0"
  shows "\<exists>AG' box. call_writeback conf C AG = Some (AG', box)"
  using assms by (simp add: call_writeback_def Let_def split: prod.splits)

lemma initCC_shape:
  "m_nodesInCC (initCC AG C i) = m_nodesInCC C" "m_numCC (initCC AG C i) = m_numCC C"
proof -
  have a: "m_nodesInCC (fold (initCC_node AG) vs C0) = m_nodesInCC C0
      \<and> m_numCC (fold (initCC_node AG) vs C0) = m_numCC C0" for vs C0
    by (rule fold_invariant [where Q = "\<lambda>v. True"]) (simp_all add: initCC_node_def Let_def)
  show "m_nodesInCC (initCC AG C i) = m_nodesInCC C" "m_numCC (initCC AG C i) = m_numCC C"
    by (simp_all add: initCC_def Let_def a)
qed

lemma call_cc_defined:
  assumes "m_nodesInCC C ! i \<noteq> []"
  shows "\<exists>conf' C' AG' boxes'. call_cc b i (conf, C, AG, boxes) = Some (conf', C', AG', boxes')
           \<and> m_nodesInCC C' = m_nodesInCC C \<and> m_numCC C' = m_numCC C"
proof -
  let ?C1 = "initCC AG C i"
  have l: "length (m_x ?C1) = m_numNodes ?C1" "length (m_y ?C1) = m_numNodes ?C1"
    and n: "m_numNodes ?C1 \<noteq> 0"
    using assms by (simp_all add: initCC_result)
  from call_layout_shape [OF l, of b conf] obtain conf' C' where
    lay: "call_layout b conf ?C1 = Some (conf', C')" and s: "same_shape ?C1 C'" by blast
  have "m_numNodes C' \<noteq> 0" using s n by (simp add: same_shape_def)
  from call_writeback_defined [OF this, of conf' AG] obtain AG' box where
    wb: "call_writeback conf' C' AG = Some (AG', box)" by blast
  show ?thesis
    using s by (simp add: call_cc_def lay wb same_shape_def initCC_shape)
qed

lemma call_loop_defined:
  assumes "\<forall>i\<in>set is. m_nodesInCC C ! i \<noteq> []"
  shows "\<exists>st. call_loop b is (conf, C, AG, boxes) = Some st"
  using assms
proof (induction "is" arbitrary: conf C AG boxes)
  case Nil
  then show ?case by simp
next
  case (Cons i "is")
  from Cons.prems have "m_nodesInCC C ! i \<noteq> []" by simp
  from call_cc_defined [OF this, of b conf AG boxes] obtain conf' C' AG' boxes' where
    cc: "call_cc b i (conf, C, AG, boxes) = Some (conf', C', AG', boxes')"
    and k: "m_nodesInCC C' = m_nodesInCC C" by blast
  have "\<forall>i\<in>set is. m_nodesInCC C' ! i \<noteq> []" using Cons.prems k by simp
  from Cons.IH [OF this, of conf' AG' boxes'] show ?case by (simp add: cc)
qed

lemma ctor_nodesInCC:
  assumes "i < numCC"
  shows "m_nodesInCC (ArrayGraph_ctor AG numCC ccIndex) ! i
           = filter (\<lambda>v. ccIndex v = i) (nodes (constGraph AG))"
proof -
  have "length (fold (\<lambda>v cc. cc[ccIndex v := cc ! ccIndex v @ [v]]) vs cc) = length cc
      \<and> (i < length cc \<longrightarrow>
           fold (\<lambda>v cc. cc[ccIndex v := cc ! ccIndex v @ [v]]) vs cc ! i
             = cc ! i @ filter (\<lambda>v. ccIndex v = i) vs)" for vs and cc :: "node list list"
    by (induction vs arbitrary: cc) (auto simp: nth_list_update)
  then show ?thesis using assms by (simp add: ArrayGraph_ctor_def)
qed

lemma call_defined:
  assumes "\<forall>i<numCC. \<exists>v\<in>set (nodes (constGraph AG)). ccIndex v = i"
  shows "\<exists>AG'. call b numCC ccIndex packer conf AG = Some AG'"
proof (cases "nodes (constGraph AG) = []")
  case True
  then show ?thesis by (simp add: call_def)
next
  case False
  let ?A = "clearAllBends AG"
  let ?C = "(ArrayGraph_ctor ?A numCC ccIndex)\<lparr> ag_useNodeWeight := m_useNodeWeight conf \<rparr>"
  have g: "constGraph ?A = constGraph AG" by (simp add: clearAllBends_def)
  have n: "m_numCC (ArrayGraph_ctor ?A numCC ccIndex) = numCC" by (simp add: ArrayGraph_ctor_def)
  have ne: "\<forall>i\<in>set [0..<numCC]. m_nodesInCC ?C ! i \<noteq> []"
  proof
    fix i assume "i \<in> set [0..<numCC]"
    then have i: "i < numCC" by simp
    have "m_nodesInCC ?C ! i = filter (\<lambda>v. ccIndex v = i) (nodes (constGraph AG))"
      using ctor_nodesInCC [OF i, of ?A ccIndex] by (simp add: g)
    then show "m_nodesInCC ?C ! i \<noteq> []"
      using assms i by (auto simp: filter_empty_conv)
  qed
  from call_loop_defined [OF ne, of b conf ?A "replicate numCC (0, 0)"]
  obtain st where "call_loop b [0..<numCC] (conf, ?C, ?A, replicate numCC (0, 0)) = Some st" by blast
  then show ?thesis
    using False by (cases st) (simp add: call_def Let_def n)
qed

text \<open>
  Claim C10. For a graph with at least one node (and a component index, as
  \<^verbatim>\<open>connectedComponents\<close> delivers it, that leaves no component empty), \<open>call\<close> returns
  an attribute store with no bend point on any edge: \<open>clearAllBends\<close> runs before the
  loop over the components and no later step writes a bend, whether or not the engine
  runs on a component. The layout is the same as on the store with the bends already
  removed.
\<close>

theorem call_clears_bends:
  assumes "nodes (constGraph AG) \<noteq> []"
    and "\<forall>i<numCC. \<exists>v\<in>set (nodes (constGraph AG)). ccIndex v = i"
  shows "\<exists>AG'. call b numCC ccIndex packer conf AG = Some AG'
           \<and> ga_bends AG' = (\<lambda>e. [])
           \<and> call b numCC ccIndex packer conf (clearAllBends AG) = Some AG'"
proof -
  from call_defined [OF assms(2), of b packer conf] obtain AG' where
    c: "call b numCC ccIndex packer conf AG = Some AG'" by blast
  from call_bends [OF assms(1) c] c show ?thesis by blast
qed

theorem call_clears_bends_witness:
  "nodes (constGraph single_attributes) = [0]
   \<and> connected_index 0 = 0
   \<and> ga_bends single_attributes 0 = [(1, 2), (3, 4)]
   \<and> call \<lparr> haveSSE3 = True, sse3_extensions = True, use_ksquare = False \<rparr> 1 connected_index
        no_offsets (SpringEmbedderFRExact_ctor 1 20) single_attributes
      = Some (single_attributes\<lparr> ga_x := (\<lambda>v. 5)(0 := 30), ga_y := (\<lambda>v. 7)(0 := 30),
                                 ga_bends := (\<lambda>e. []) \<rparr>)
   \<and> ga_bends (single_attributes\<lparr> ga_x := (\<lambda>v. 5)(0 := 30), ga_y := (\<lambda>v. 7)(0 := 30),
                                  ga_bends := (\<lambda>e. []) \<rparr>) = (\<lambda>e. [])"
proof -
  have n: "nodes (constGraph single_attributes) \<noteq> []"
    by (simp add: single_attributes_def)
  have v: "\<forall>i<1. \<exists>v\<in>set (nodes (constGraph single_attributes)). connected_index v = i"
    by (simp add: single_attributes_def connected_index_def)
  have b: "ga_bends single_attributes 0 = [(1, 2), (3, 4)]"
    by (simp add: single_attributes_def)
  from call_clears_bends [OF n v,
      of "\<lparr> haveSSE3 = True, sse3_extensions = True, use_ksquare = False \<rparr>" no_offsets
        "SpringEmbedderFRExact_ctor 1 20"]
  obtain AG' where
    c: "call \<lparr> haveSSE3 = True, sse3_extensions = True, use_ksquare = False \<rparr> 1 connected_index
          no_offsets (SpringEmbedderFRExact_ctor 1 20) single_attributes = Some AG'"
    and e: "ga_bends AG' = (\<lambda>e. [])" by blast
  from c e have "ga_bends (single_attributes\<lparr> ga_x := (\<lambda>v. 5)(0 := 30), ga_y := (\<lambda>v. 7)(0 := 30),
                                  ga_bends := (\<lambda>e. []) \<rparr>) = (\<lambda>e. [])"
    unfolding single_call by simp
  moreover have "nodes (constGraph single_attributes) = [0]" "connected_index 0 = 0"
    by (simp_all add: single_attributes_def connected_index_def)
  ultimately show ?thesis using b single_call by blast
qed

end
